theory Spec2Isabelle
  imports Complex_Main "HOL-Library.Log_Nat" "HOL-Library.Multiset"
begin

section \<open>Double-precision values\<close>

text \<open>
  The C++ type \<^verbatim>\<open>double\<close> is IEEE 754 binary64. A value is a finite number (kept as the
  rational it denotes), the negative zero, an infinity or a NaN. Every arithmetic
  operation computes the exact rational result and rounds it to the nearest value with a
  53-bit significand, ties to the even significand; results of magnitude \<open>2^1024\<close> or more
  overflow to an infinity and the quantum never falls below \<open>2^-1074\<close> (subnormals).
\<close>

datatype double = Dbl rat | NegZero | PInf | NInf | NaN

definition floor_log2 :: "rat \<Rightarrow> int" where
  \<comment> \<open>for \<open>0 < x\<close>: the exponent \<open>e\<close> with \<open>2^e \<le> x < 2^(e+1)\<close>\<close>
  "floor_log2 x = (if 1 \<le> x then bitlen \<lfloor>x\<rfloor> - 1 else - bitlen (\<lceil>1 / x\<rceil> - 1))"

definition round_half_even :: "rat \<Rightarrow> int" where
  "round_half_even y =
     (let f = \<lfloor>y\<rfloor>; r = y - of_int f
      in if r < 1 / 2 then f else if 1 / 2 < r then f + 1
         else if even f then f else f + 1)"

definition quantum :: "rat \<Rightarrow> rat" where
  "quantum x = 2 powi (max (floor_log2 \<bar>x\<bar> - 52) (- 1074))"

definition rnd :: "rat \<Rightarrow> rat" where
  "rnd x = of_int (round_half_even (x / quantum x)) * quantum x"

definition overflow_threshold :: rat where
  "overflow_threshold = 2 ^ 1024"

definition round_double :: "rat \<Rightarrow> double" where
  "round_double x =
     (let r = rnd x
      in if overflow_threshold \<le> \<bar>r\<bar> then (if x < 0 then NInf else PInf)
         else if r = 0 then (if x < 0 then NegZero else Dbl 0)
         else Dbl r)"

fun is_nan :: "double \<Rightarrow> bool" where
  "is_nan NaN = True"
| "is_nan _ = False"

fun is_inf :: "double \<Rightarrow> bool" where
  "is_inf PInf = True"
| "is_inf NInf = True"
| "is_inf _ = False"

fun dval :: "double \<Rightarrow> rat" where
  \<comment> \<open>the number a finite value denotes\<close>
  "dval (Dbl x) = x"
| "dval _ = 0"

fun dsign :: "double \<Rightarrow> bool" where
  \<comment> \<open>the sign bit\<close>
  "dsign (Dbl x) = (x < 0)"
| "dsign NegZero = True"
| "dsign NInf = True"
| "dsign _ = False"

definition dzero :: "bool \<Rightarrow> double" where
  "dzero s = (if s then NegZero else Dbl 0)"

definition dinf :: "bool \<Rightarrow> double" where
  "dinf s = (if s then NInf else PInf)"

definition d_of_int :: "int \<Rightarrow> double" where
  \<comment> \<open>conversion of an \<^verbatim>\<open>int\<close> to \<^verbatim>\<open>double\<close>\<close>
  "d_of_int n = round_double (of_int n)"

definition dneg :: "double \<Rightarrow> double" where
  "dneg a = (case a of Dbl x \<Rightarrow> (if x = 0 then NegZero else Dbl (- x))
     | NegZero \<Rightarrow> Dbl 0 | PInf \<Rightarrow> NInf | NInf \<Rightarrow> PInf | NaN \<Rightarrow> NaN)"

definition dadd :: "double \<Rightarrow> double \<Rightarrow> double" where
  "dadd a b =
     (if is_nan a \<or> is_nan b then NaN
      else if is_inf a then (if is_inf b \<and> a \<noteq> b then NaN else a)
      else if is_inf b then b
      else let s = dval a + dval b
           in if s = 0 then dzero (a = NegZero \<and> b = NegZero) else round_double s)"

definition dsub :: "double \<Rightarrow> double \<Rightarrow> double" where
  "dsub a b = dadd a (dneg b)"

definition dmul :: "double \<Rightarrow> double \<Rightarrow> double" where
  "dmul a b =
     (if is_nan a \<or> is_nan b then NaN
      else if is_inf a \<or> is_inf b then
        (if (\<not> is_inf a \<and> dval a = 0) \<or> (\<not> is_inf b \<and> dval b = 0) then NaN
         else dinf (dsign a \<noteq> dsign b))
      else let p = dval a * dval b
           in if p = 0 then dzero (dsign a \<noteq> dsign b) else round_double p)"

definition ddiv :: "double \<Rightarrow> double \<Rightarrow> double" where
  "ddiv a b =
     (if is_nan a \<or> is_nan b then NaN
      else if is_inf a then (if is_inf b then NaN else dinf (dsign a \<noteq> dsign b))
      else if is_inf b then dzero (dsign a \<noteq> dsign b)
      else if dval b = 0 then
        (if dval a = 0 then NaN else dinf (dsign a \<noteq> dsign b))
      else if dval a = 0 then dzero (dsign a \<noteq> dsign b)
      else round_double (dval a / dval b))"

definition dless :: "double \<Rightarrow> double \<Rightarrow> bool" where
  \<comment> \<open>\<^verbatim>\<open>a < b\<close> on doubles: false when either side is a NaN; the two zeros are equal\<close>
  "dless a b =
     (if is_nan a \<or> is_nan b then False
      else if a = NInf then b \<noteq> NInf
      else if b = PInf then a \<noteq> PInf
      else if a = PInf \<or> b = NInf then False
      else dval a < dval b)"


section \<open>Control structures and errors\<close>

text \<open>
  A C++ exception thrown inside \<^verbatim>\<open>BEGIN_RCPP ... END_RCPP\<close> leaves the function and is
  turned into an error of the caller: the result is \<open>Inl\<close> of the error and carries no
  output. \<open>Undefined_Behaviour\<close> stands for an execution that leaves the defined
  behaviour of C++: a write outside the working vector, or \<^verbatim>\<open>std::sort\<close> called with an
  ordering that is not a strict weak ordering (a NaN among the keys).
\<close>

datatype error = Runtime_Error string | Undefined_Behaviour

text \<open>The counted loop \<^verbatim>\<open>for (int i = lo; i < hi; ++i) s = body(i, s);\<close>\<close>

function for_loop :: "nat \<Rightarrow> nat \<Rightarrow> (nat \<Rightarrow> 's \<Rightarrow> 's) \<Rightarrow> 's \<Rightarrow> 's" where
  "for_loop i hi body s = (if i < hi then for_loop (Suc i) hi body (body i s) else s)"
  by pat_completeness auto
termination
  by (relation "measure (\<lambda>(i, hi, body, s). hi - i)") auto

declare for_loop.simps [simp del]

section \<open>Collaborators outside the source file\<close>

text \<open>
  The generator \<^verbatim>\<open>std::mt19937\<close>, \<^verbatim>\<open>std::shuffle\<close> and \<^verbatim>\<open>std::normal_distribution\<close> belong to
  the C++ standard library; their algorithms are not part of the source. They are
  deterministic state machines, taken as parameters: \<open>'g\<close> is the state of a generator,
  \<open>'n\<close> the state of a distribution object.
\<close>

record ('g, 'n) stdlib =
  mt19937 :: "int \<Rightarrow> 'g"
    \<comment> \<open>\<^verbatim>\<open>std::mt19937 generator(seed)\<close>\<close>
  shuffle :: "int list \<Rightarrow> 'g \<Rightarrow> int list"
    \<comment> \<open>\<^verbatim>\<open>std::shuffle(first, last, generator)\<close>: the new content of the range\<close>
  normal_init :: "'n"
    \<comment> \<open>\<^verbatim>\<open>std::normal_distribution<double> cpp_rnorm\<close>\<close>
  cpp_rnorm :: "'n \<Rightarrow> 'g \<Rightarrow> double \<times> 'n \<times> 'g"
    \<comment> \<open>\<^verbatim>\<open>cpp_rnorm(generator)\<close>: the deviate and the new state of both objects\<close>

text \<open>
  The class \<^verbatim>\<open>run_dormqr\<close> (header \<^verbatim>\<open>run_dormqr.h\<close>) holds the factorization, the
  working vector \<^verbatim>\<open>rhs\<close> and the member \<^verbatim>\<open>run()\<close>, which multiplies \<^verbatim>\<open>rhs\<close> by the
  orthogonal factor in place. Both counts are dimensions of a matrix.
\<close>

record run_dormqr =
  get_nobs :: nat
  get_ncoefs :: nat
  rhs :: "double list"
  run :: "double list \<Rightarrow> double list"

section \<open>The scaling constant\<close>

definition rho_mult :: "double \<Rightarrow> double" where
  "rho_mult Ncells =
     ddiv (d_of_int 6) (dmul Ncells (dsub (dmul Ncells Ncells) (d_of_int 1)))"

section \<open>Null distribution without a design matrix\<close>

fun iota :: "int list \<Rightarrow> int \<Rightarrow> int list" where
  \<comment> \<open>\<^verbatim>\<open>std::iota(first, last, v)\<close>\<close>
  "iota [] v = []"
| "iota (x # xs) v = v # iota xs (v + 1)"

definition sq_diff_step :: "int list \<Rightarrow> nat \<Rightarrow> double \<Rightarrow> double" where
  \<comment> \<open>the body of the inner loop: \<^verbatim>\<open>tmpdiff = rankings[cell] - cell; tmp += tmpdiff * tmpdiff\<close>\<close>
  "sq_diff_step rankings cell tmp =
     (let tmpdiff = d_of_int (rankings ! cell - int cell)
      in dadd tmp (dmul tmpdiff tmpdiff))"

definition null_rho_iter ::
  "('g, 'n) stdlib \<Rightarrow> nat \<Rightarrow> double \<Rightarrow> int list \<Rightarrow> nat \<Rightarrow>
   int list \<times> double list \<Rightarrow> int list \<times> double list" where
  \<comment> \<open>the body of the loop over \<open>it\<close>, on the two vectors it writes\<close>
  "null_rho_iter ext Ncells mult_c Seeds it st =
     (let rankings = iota (fst st) 0;
          generator = mt19937 ext (Seeds ! it);
          rankings = shuffle ext rankings generator;
          tmp = for_loop 0 Ncells (sq_diff_step rankings) (d_of_int 0);
          tmp = dmul tmp mult_c
      in (rankings, (snd st)[it := dsub (d_of_int 1) tmp]))"

definition get_null_rho ::
  "('g, 'n) stdlib \<Rightarrow> int \<Rightarrow> int \<Rightarrow> int list \<Rightarrow> error + double list" where
  "get_null_rho ext Ncells Niters Seeds =
     (if Ncells \<le> 1 then
        Inl (Runtime_Error ''number of cells should be greater than 2'')
      else if Niters < 0 then
        Inl (Runtime_Error ''number of iterations should be non-negative'')
      else if int (length Seeds) \<noteq> Niters then
        Inl (Runtime_Error ''number of iterations and seeds should be the same'')
      else
        let rankings = replicate (nat Ncells) 0;
            output = replicate (nat Niters) (Dbl 0);
            mult_c = rho_mult (d_of_int Ncells)
        in Inr (snd (for_loop 0 (nat Niters)
                  (null_rho_iter ext (nat Ncells) mult_c Seeds) (rankings, output))))"

section \<open>Null distribution with a design matrix\<close>

text \<open>
  \<^verbatim>\<open>operator<\<close> of \<^verbatim>\<open>std::pair<double, int>\<close> compares the first components and, when
  neither is less than the other, the second ones. \<^verbatim>\<open>std::sort\<close> arranges the range in
  ascending order of it; the pairs sorted here have distinct second components, so the
  order is total on them and the sorted arrangement is unique: it is the one built by
  insertion.
\<close>

definition pair_lt :: "double \<times> int \<Rightarrow> double \<times> int \<Rightarrow> bool" where
  "pair_lt a b = (dless (fst a) (fst b) \<or> (\<not> dless (fst b) (fst a) \<and> snd a < snd b))"

fun insert_pair :: "double \<times> int \<Rightarrow> (double \<times> int) list \<Rightarrow> (double \<times> int) list" where
  "insert_pair x [] = [x]"
| "insert_pair x (y # ys) = (if pair_lt y x then y # insert_pair x ys else x # y # ys)"

fun std_sort :: "(double \<times> int) list \<Rightarrow> (double \<times> int) list" where
  "std_sort [] = []"
| "std_sort (x # xs) = insert_pair x (std_sort xs)"

record design_state =
  multQ :: run_dormqr
  collected1 :: "(double \<times> int) list"
  collected2 :: "(double \<times> int) list"
  rank1 :: "int list"
  rank2 :: "int list"
  outputs :: "double list"

definition draw_step ::
  "('g, 'n) stdlib \<Rightarrow> nat \<Rightarrow> double list \<times> 'n \<times> 'g \<Rightarrow> double list \<times> 'n \<times> 'g" where
  \<comment> \<open>\<^verbatim>\<open>multQ.rhs[col] = cpp_rnorm(generator)\<close>\<close>
  "draw_step ext col st =
     (case st of (v, nd, g) \<Rightarrow>
        (case cpp_rnorm ext nd g of (x, nd', g') \<Rightarrow> (v[col := x], nd', g')))"

text \<open>
  One pass of the loop over \<open>mode\<close>. \<^verbatim>\<open>std::fill\<close> writes the entries \<open>0, ..., Ncoef - 1\<close> of
  \<^verbatim>\<open>rhs\<close>, the loop over \<open>col\<close> the entries \<open>Ncoef, ..., Nobs - 1\<close> and the loop over \<open>row\<close> reads
  the first \<open>Nobs\<close> entries: the behaviour is defined only if \<^verbatim>\<open>rhs\<close> has that many entries.
  \<^verbatim>\<open>multQ.run()\<close> replaces \<^verbatim>\<open>rhs\<close> by its transform.
\<close>

definition residual_ranks ::
  "('g, 'n) stdlib \<Rightarrow> run_dormqr \<Rightarrow> 'n \<times> 'g \<Rightarrow> (double \<times> int) list \<Rightarrow> int list \<Rightarrow>
   error + (run_dormqr \<times> ('n \<times> 'g) \<times> (double \<times> int) list \<times> int list)" where
  \<comment> \<open>the body of the loop over \<open>mode\<close>, on the deques \<open>current\<close> and \<open>rank\<close> it selects\<close>
  "residual_ranks ext mq rng current rank =
     (let Nobs = get_nobs mq; Ncoef = get_ncoefs mq
      in if length (rhs mq) < Ncoef \<or> length (rhs mq) < Nobs then Inl Undefined_Behaviour
         else
           let v = for_loop 0 Ncoef (\<lambda>i v. v[i := d_of_int 0]) (rhs mq);
               filled = for_loop Ncoef Nobs (draw_step ext) (v, rng);
               v = run mq (fst filled);
               current = for_loop 0 Nobs (\<lambda>row c. c[row := (v ! row, int row)]) current
           in if \<exists>p \<in> set current. is_nan (fst p) then Inl Undefined_Behaviour
              else
                let current = std_sort current;
                    rank = for_loop 0 Nobs
                             (\<lambda>row r. r[nat (snd (current ! row)) := int row]) rank
                in Inr (mq\<lparr>rhs := v\<rparr>, snd filled, current, rank))"

definition mode_step ::
  "('g, 'n) stdlib \<Rightarrow> nat \<Rightarrow> error + (('n \<times> 'g) \<times> design_state) \<Rightarrow>
   error + (('n \<times> 'g) \<times> design_state)" where
  "mode_step ext mode acc =
     (case acc of Inl e \<Rightarrow> Inl e
      | Inr (rng, st) \<Rightarrow>
          (case residual_ranks ext (multQ st) rng
                  (if mode \<noteq> 0 then collected1 st else collected2 st)
                  (if mode \<noteq> 0 then rank1 st else rank2 st) of
             Inl e \<Rightarrow> Inl e
           | Inr (mq, rng', current, rank) \<Rightarrow>
               Inr (rng',
                 if mode \<noteq> 0 then st\<lparr>multQ := mq, collected1 := current, rank1 := rank\<rparr>
                 else st\<lparr>multQ := mq, collected2 := current, rank2 := rank\<rparr>)))"

definition rank_diff_step :: "int list \<Rightarrow> int list \<Rightarrow> nat \<Rightarrow> double \<Rightarrow> double" where
  \<comment> \<open>\<^verbatim>\<open>tmpdiff = rank1[row] - rank2[row]; rho += tmpdiff * tmpdiff\<close>\<close>
  "rank_diff_step r1 r2 row rho =
     (let tmpdiff = d_of_int (r1 ! row - r2 ! row)
      in dadd rho (dmul tmpdiff tmpdiff))"

definition design_iter ::
  "('g, 'n) stdlib \<Rightarrow> nat \<Rightarrow> double \<Rightarrow> int list \<Rightarrow> nat \<Rightarrow>
   error + design_state \<Rightarrow> error + design_state" where
  \<comment> \<open>the body of the loop over \<open>it\<close>\<close>
  "design_iter ext Nobs mult_c Seeds it acc =
     (case acc of Inl e \<Rightarrow> Inl e
      | Inr st \<Rightarrow>
          let generator = mt19937 ext (Seeds ! it);
              nd = normal_init ext
          in (case for_loop 0 2 (mode_step ext) (Inr ((nd, generator), st)) of
                Inl e \<Rightarrow> Inl e
              | Inr (rng, st) \<Rightarrow>
                  let rho = for_loop 0 Nobs (rank_diff_step (rank1 st) (rank2 st)) (d_of_int 0);
                      rho = dmul rho mult_c;
                      rho = dsub (d_of_int 1) rho
                  in Inr (st\<lparr>outputs := (outputs st)[it := rho]\<rparr>)))"

definition design_init :: "run_dormqr \<Rightarrow> nat \<Rightarrow> design_state" where
  \<comment> \<open>the vectors and deques as they are allocated: \<open>output(Niters)\<close>, \<open>collected1(Nobs)\<close>,
      \<open>collected2(Nobs)\<close>, \<open>rank1(Nobs)\<close>, \<open>rank2(Nobs)\<close>\<close>
  "design_init mq Niters =
     \<lparr>multQ = mq,
      collected1 = replicate (get_nobs mq) (Dbl 0, 0),
      collected2 = replicate (get_nobs mq) (Dbl 0, 0),
      rank1 = replicate (get_nobs mq) 0, rank2 = replicate (get_nobs mq) 0,
      outputs = replicate Niters (Dbl 0)\<rparr>"

definition get_null_rho_design ::
  "('g, 'n) stdlib \<Rightarrow> run_dormqr \<Rightarrow> int \<Rightarrow> int list \<Rightarrow> error + double list" where
  \<comment> \<open>\<open>mq\<close> is the object built by \<^verbatim>\<open>run_dormqr multQ(qr, qraux, 'N')\<close>\<close>
  "get_null_rho_design ext mq Niters Seeds =
     (if Niters \<le> 0 then
        Inl (Runtime_Error ''number of iterations should be positive'')
      else if int (length Seeds) \<noteq> Niters then
        Inl (Runtime_Error ''number of iterations and seeds should be the same'')
      else
        let Nobs = get_nobs mq;
            st = design_init mq (nat Niters);
            mult_c = rho_mult (d_of_int (int Nobs))
        in (case for_loop 0 (nat Niters) (design_iter ext Nobs mult_c Seeds) (Inr st) of
              Inl e \<Rightarrow> Inl e
            | Inr st \<Rightarrow> Inr (outputs st)))"

section \<open>The diagnostic of the normal deviates\<close>

definition test_rnorm :: "('g, 'n) stdlib \<Rightarrow> nat \<Rightarrow> int \<Rightarrow> double list" where
  \<comment> \<open>\<open>N\<close> is the length of the vector allocated for the output\<close>
  "test_rnorm ext N seed =
     (let generator = mt19937 ext seed;
          nd = normal_init ext;
          output = replicate N (Dbl 0)
      in fst (for_loop 0 N (draw_step ext) (output, nd, generator)))"

section \<open>The statements of a call, in their order\<close>

text \<open>
  To tell what a call has done when it raises an error, the two samplers are written once
  more as the sequence of their statements, each acting on a log of the work done so far:
  a \<^verbatim>\<open>throw\<close> ends the call with the log as it stands, and the statements that build the
  object of the factorization, allocate the vectors and deques, make the generator of an
  iteration from its seed, and store the value of an iteration append an event. Reading the
  arguments (\<^verbatim>\<open>check_integer_scalar\<close>, the view \<^verbatim>\<open>Seeds\<close> of the seeds) is not work of the
  simulation and leaves the log as it is.
\<close>

datatype event =
    Construct_Factorization
      \<comment> \<open>\<^verbatim>\<open>run_dormqr multQ(qr, qraux, 'N')\<close>\<close>
  | Allocate_Vectors
      \<comment> \<open>\<^verbatim>\<open>rankings\<close>, \<^verbatim>\<open>output\<close>; \<^verbatim>\<open>output\<close> and the four deques\<close>
  | Seed_Generator int
      \<comment> \<open>\<^verbatim>\<open>std::mt19937 generator(Seeds[it])\<close>, in the iteration of that seed\<close>
  | Store_Result nat
      \<comment> \<open>the value of iteration \<open>it\<close> is in \<^verbatim>\<open>output[it]\<close>\<close>

type_synonym 'a logged = "event list \<Rightarrow> (error + 'a) \<times> event list"

definition return_logged :: "'a \<Rightarrow> 'a logged" where
  "return_logged x lg = (Inr x, lg)"

definition throw_logged :: "string \<Rightarrow> 'a logged" where
  \<comment> \<open>\<^verbatim>\<open>throw std::runtime_error(msg)\<close>\<close>
  "throw_logged msg lg = (Inl (Runtime_Error msg), lg)"

definition emit :: "event \<Rightarrow> unit logged" where
  "emit ev lg = (Inr (), lg @ [ev])"

definition lift_logged :: "error + 'a \<Rightarrow> 'a logged" where
  "lift_logged r lg = (r, lg)"

definition bind_logged :: "'a logged \<Rightarrow> ('a \<Rightarrow> 'b logged) \<Rightarrow> 'b logged" where
  \<comment> \<open>one statement, then the statements after it unless it has thrown\<close>
  "bind_logged m k lg =
     (case m lg of (Inl e, lg') \<Rightarrow> (Inl e, lg') | (Inr x, lg') \<Rightarrow> k x lg')"

definition then_logged :: "unit logged \<Rightarrow> 'a logged \<Rightarrow> 'a logged" where
  "then_logged m k = bind_logged m (\<lambda>_. k)"

definition check_logged :: "bool \<Rightarrow> string \<Rightarrow> unit logged" where
  \<comment> \<open>\<^verbatim>\<open>if (c) { throw std::runtime_error(msg); }\<close>\<close>
  "check_logged c msg = (if c then throw_logged msg else return_logged ())"

definition loop_logged :: "nat \<Rightarrow> nat \<Rightarrow> (nat \<Rightarrow> 's \<Rightarrow> 's logged) \<Rightarrow> 's \<Rightarrow> 's logged" where
  "loop_logged lo hi body s lg =
     for_loop lo hi
       (\<lambda>i acc. case acc of (Inl e, l) \<Rightarrow> (Inl e, l) | (Inr t, l) \<Rightarrow> body i t l)
       (Inr s, lg)"

definition get_null_rho_logged ::
  "('g, 'n) stdlib \<Rightarrow> int \<Rightarrow> int \<Rightarrow> int list \<Rightarrow> double list logged" where
  "get_null_rho_logged ext Ncells Niters Seeds =
     then_logged (check_logged (Ncells \<le> 1) ''number of cells should be greater than 2'')
    (then_logged (check_logged (Niters < 0) ''number of iterations should be non-negative'')
    (then_logged (check_logged (int (length Seeds) \<noteq> Niters)
                    ''number of iterations and seeds should be the same'')
    (then_logged (emit Allocate_Vectors)
    (bind_logged
       (loop_logged 0 (nat Niters)
          (\<lambda>it st.
             then_logged (emit (Seed_Generator (Seeds ! it)))
            (bind_logged
               (return_logged
                  (null_rho_iter ext (nat Ncells) (rho_mult (d_of_int Ncells)) Seeds it st))
               (\<lambda>st'. then_logged (emit (Store_Result it)) (return_logged st'))))
          (replicate (nat Ncells) 0, replicate (nat Niters) (Dbl 0)))
       (\<lambda>st. return_logged (snd st))))))"

definition get_null_rho_design_logged ::
  "('g, 'n) stdlib \<Rightarrow> run_dormqr \<Rightarrow> int \<Rightarrow> int list \<Rightarrow> double list logged" where
  "get_null_rho_design_logged ext mq Niters Seeds =
     then_logged (check_logged (Niters \<le> 0) ''number of iterations should be positive'')
    (then_logged (check_logged (int (length Seeds) \<noteq> Niters)
                    ''number of iterations and seeds should be the same'')
    (then_logged (emit Construct_Factorization)
    (then_logged (emit Allocate_Vectors)
    (bind_logged
       (loop_logged 0 (nat Niters)
          (\<lambda>it st.
             then_logged (emit (Seed_Generator (Seeds ! it)))
            (bind_logged
               (lift_logged
                  (design_iter ext (get_nobs mq) (rho_mult (d_of_int (int (get_nobs mq))))
                     Seeds it (Inr st)))
               (\<lambda>st'. then_logged (emit (Store_Result it)) (return_logged st'))))
          (design_init mq (nat Niters)))
       (\<lambda>st. return_logged (outputs st))))))"

section \<open>The quantities of the specification\<close>

text \<open>
  The definitions of this section follow the words of the specification, not the loops
  of the source; the theorems below compare the two.
\<close>

definition scaling_constant :: "nat \<Rightarrow> double" where
  \<comment> \<open>\<open>c = 6 / (N (N\<^sup>2 - 1))\<close>\<close>
  "scaling_constant N =
     (let n = d_of_int (int N)
      in ddiv (d_of_int 6) (dmul n (dsub (dmul n n) (d_of_int 1))))"

definition sum_squares :: "int list \<Rightarrow> double" where
  \<comment> \<open>the sum of the squares, accumulated from the first to the last\<close>
  "sum_squares ds = foldl (\<lambda>acc d. dadd acc (dmul (d_of_int d) (d_of_int d))) (d_of_int 0) ds"

definition rank_correlation :: "nat \<Rightarrow> int list \<Rightarrow> int list \<Rightarrow> double" where
  \<comment> \<open>\<open>rho = 1 - c \<Sum> (a[i] - b[i])\<^sup>2\<close> over the \<open>N\<close> positions\<close>
  "rank_correlation N a b =
     dsub (d_of_int 1)
       (dmul (scaling_constant N) (sum_squares (map (\<lambda>i. a ! i - b ! i) [0..<N])))"

definition permutation_rho :: "('g, 'n) stdlib \<Rightarrow> nat \<Rightarrow> int \<Rightarrow> double" where
  \<comment> \<open>the value of one iteration of the sampler without a design matrix\<close>
  "permutation_rho ext N seed =
     (let identity = map int [0..<N];
          permuted = shuffle ext identity (mt19937 ext seed)
      in rank_correlation N permuted identity)"

fun deviates :: "('g, 'n) stdlib \<Rightarrow> nat \<Rightarrow> 'n \<times> 'g \<Rightarrow> double list \<times> 'n \<times> 'g" where
  \<comment> \<open>\<open>k\<close> successive deviates drawn from one generator\<close>
  "deviates ext 0 st = ([], st)"
| "deviates ext (Suc k) st =
     (case cpp_rnorm ext (fst st) (snd st) of (x, st') \<Rightarrow>
        (case deviates ext k st' of (xs, st'') \<Rightarrow> (x # xs, st'')))"

definition residuals ::
  "('g, 'n) stdlib \<Rightarrow> run_dormqr \<Rightarrow> 'n \<times> 'g \<Rightarrow> double list \<times> 'n \<times> 'g" where
  \<comment> \<open>zeros in the first \<open>Ncoef\<close> entries, deviates in the other \<open>Nobs - Ncoef\<close>, transformed\<close>
  "residuals ext mq st =
     (case deviates ext (get_nobs mq - get_ncoefs mq) st of (zs, st') \<Rightarrow>
        (run mq (replicate (get_ncoefs mq) (d_of_int 0) @ zs), st'))"

definition tied :: "double \<Rightarrow> double \<Rightarrow> bool" where
  \<comment> \<open>two values that compare equal\<close>
  "tied a b = (\<not> is_nan a \<and> \<not> is_nan b \<and> \<not> dless a b \<and> \<not> dless b a)"

definition precedes :: "double list \<Rightarrow> nat \<Rightarrow> nat \<Rightarrow> bool" where
  \<comment> \<open>item \<open>j\<close> is sorted before item \<open>i\<close>: a smaller value, or a tie and a smaller index\<close>
  "precedes v j i = (dless (v ! j) (v ! i) \<or> (tied (v ! j) (v ! i) \<and> j < i))"

definition sorted_position :: "double list \<Rightarrow> nat \<Rightarrow> nat" where
  \<comment> \<open>the number of items sorted before item \<open>i\<close>\<close>
  "sorted_position v i = length (filter (\<lambda>j. precedes v j i) [0..<length v])"

definition ranking :: "double list \<Rightarrow> int list" where
  "ranking v = map (\<lambda>i. int (sorted_position v i)) [0..<length v]"

definition design_rho :: "('g, 'n) stdlib \<Rightarrow> run_dormqr \<Rightarrow> int \<Rightarrow> double" where
  \<comment> \<open>the value of one iteration of the sampler with a design matrix\<close>
  "design_rho ext mq seed =
     (case residuals ext mq (normal_init ext, mt19937 ext seed) of (v0, st) \<Rightarrow>
        (case residuals ext mq st of (v1, st') \<Rightarrow>
           rank_correlation (get_nobs mq) (ranking v0) (ranking v1)))"





text \<open>
  What the theorems assume of the collaborators. Of \<^verbatim>\<open>std::shuffle\<close>: that it reorders its
  range. Of the factorization: the shape of its working vector. Of the deviates and of the
  transform together: that the vectors handed to \<^verbatim>\<open>std::sort\<close> hold no NaN, with which the
  order of the pairs could fail to be the strict weak order that the sort requires; an
  infinity is a number.
\<close>

definition no_nan :: "double list \<Rightarrow> bool" where
  "no_nan v = (\<forall>x \<in> set v. \<not> is_nan x)"

definition shuffle_permutes :: "('g, 'n) stdlib \<Rightarrow> bool" where
  \<comment> \<open>\<^verbatim>\<open>std::shuffle\<close> reorders the range in place\<close>
  "shuffle_permutes ext = (\<forall>xs g. mset (shuffle ext xs g) = mset xs)"

definition factorization_shape :: "run_dormqr \<Rightarrow> bool" where
  \<comment> \<open>at most as many coefficients as observations, and a working vector of \<open>Nobs\<close> entries
      that \<^verbatim>\<open>run()\<close> transforms in place\<close>
  "factorization_shape mq =
     (get_ncoefs mq \<le> get_nobs mq \<and> length (rhs mq) = get_nobs mq \<and>
      (\<forall>v. length v = get_nobs mq \<longrightarrow> length (run mq v) = get_nobs mq))"

definition residuals_are_numbers :: "('g, 'n) stdlib \<Rightarrow> run_dormqr \<Rightarrow> int \<Rightarrow> bool" where
  \<comment> \<open>neither of the two vectors that the iteration of a seed hands to \<^verbatim>\<open>std::sort\<close> holds
      a NaN\<close>
  "residuals_are_numbers ext mq seed =
     (case residuals ext mq (normal_init ext, mt19937 ext seed) of (v0, st) \<Rightarrow>
        no_nan v0 \<and> no_nan (fst (residuals ext mq st)))"

definition design_inv :: "run_dormqr \<Rightarrow> design_state \<Rightarrow> bool" where
  \<comment> \<open>between two iterations: the factorization is the given one, whatever the working
      vector holds, and every deque has \<open>Nobs\<close> entries\<close>
  "design_inv mq st =
     ((\<exists>w. length w = get_nobs mq \<and> multQ st = mq\<lparr>rhs := w\<rparr>) \<and>
      length (collected1 st) = get_nobs mq \<and> length (collected2 st) = get_nobs mq \<and>
      length (rank1 st) = get_nobs mq \<and> length (rank2 st) = get_nobs mq)"

section \<open>Collaborators used to run the model\<close>

text \<open>
  A stand-in for the standard library, to evaluate the model on concrete inputs: the
  generator state is an integer that counts up from the seed, the shuffle reverses the
  range, and the deviate drawn in state \<open>g\<close> is \<open>g\<^sup>2 mod 7\<close>.
\<close>

definition rev_stdlib :: "(int, unit) stdlib" where
  "rev_stdlib =
     \<lparr>mt19937 = (\<lambda>seed. seed), shuffle = (\<lambda>xs g. rev xs), normal_init = (),
      cpp_rnorm = (\<lambda>nd g. (d_of_int (g * g mod 7), nd, g + 1))\<rparr>"

text \<open>A factorization whose orthogonal factor is the identity.\<close>

definition identity_qr :: "nat \<Rightarrow> nat \<Rightarrow> run_dormqr" where
  "identity_qr Nobs Ncoef =
     \<lparr>get_nobs = Nobs, get_ncoefs = Ncoef, rhs = replicate Nobs (Dbl 0), run = (\<lambda>v. v)\<rparr>"

text \<open>
  A factorization of two observations whose orthogonal factor is the Householder reflector
  \<open>H = I - w w\<^sup>T\<close> with \<open>w = (1, 1)\<close>, computed in doubles as \<open>s = v\<^sub>0 + v\<^sub>1\<close>, then
  \<open>(v\<^sub>0 - s, v\<^sub>1 - s)\<close>: every entry of the result depends on both entries of the vector, and
  an infinite entry yields a NaN.
\<close>

definition reflector_qr :: "nat \<Rightarrow> run_dormqr" where
  "reflector_qr Ncoef =
     \<lparr>get_nobs = 2, get_ncoefs = Ncoef, rhs = [Dbl 0, Dbl 0],
      run = (\<lambda>v. case v of [a, b] \<Rightarrow> (let s = dadd a b in [dsub a s, dsub b s]) | _ \<Rightarrow> v)\<rparr>"

section \<open>Rounding\<close>

subsection \<open>The binary exponent\<close>

lemma powi2_pos: "0 < (2::rat) powi e"
  by (simp add: power_int_def)

lemma powi2_less_iff: "(2::rat) powi a < 2 powi b \<longleftrightarrow> a < b"
  by (metis linorder_not_less one_less_numeral_iff power_int_increasing power_int_strict_increasing semiring_norm(76) order_le_less)

lemma powi2_le_iff: "(2::rat) powi a \<le> 2 powi b \<longleftrightarrow> a \<le> b"
  by (metis linorder_not_less powi2_less_iff)

lemma floor_log2_bounds:
  assumes "0 < x"
  shows "2 powi (floor_log2 x) \<le> x \<and> x < 2 powi (floor_log2 x + 1)"
proof (cases "1 \<le> x")
  case True
  define f where "f = \<lfloor>x\<rfloor>"
  have f1: "1 \<le> f" using True by (simp add: f_def le_floor_iff)
  then have fpos: "0 < f" by simp
  have b1: "1 \<le> bitlen f" using fpos bitlen_eq_zero_iff [of f] bitlen_nonneg [of f] by linarith
  from bitlen_bounds [OF fpos] have lo: "2 ^ nat (bitlen f - 1) \<le> f" and hi: "f < 2 ^ nat (bitlen f)"
    by auto
  have e: "floor_log2 x = bitlen f - 1" using True by (simp add: floor_log2_def f_def)
  have "(2::rat) powi (bitlen f - 1) = 2 ^ nat (bitlen f - 1)"
    using b1 by (simp add: power_int_def)
  also have "\<dots> \<le> of_int f" using lo by simp
  also have "\<dots> \<le> x" by (simp add: f_def)
  finally have A: "2 powi (floor_log2 x) \<le> x" by (simp add: e)
  have "f + 1 \<le> 2 ^ nat (bitlen f)" using hi by simp
  then have "(of_int (f + 1) :: rat) \<le> 2 ^ nat (bitlen f)" by (simp flip: of_int_add)
  moreover have "x < of_int (f + 1)" unfolding f_def by linarith
  ultimately have "x < 2 ^ nat (bitlen f)" by linarith
  also have "(2::rat) ^ nat (bitlen f) = 2 powi (bitlen f)" using b1 by (simp add: power_int_def)
  finally have B: "x < 2 powi (floor_log2 x + 1)" by (simp add: e)
  from A B show ?thesis ..
next
  case False
  then have x1: "x < 1" by simp
  define m where "m = \<lceil>1 / x\<rceil>"
  have inv: "1 < 1 / x" using assms x1 by (simp add: field_simps)
  have m2: "2 \<le> m" unfolding m_def using inv by linarith
  define k where "k = bitlen (m - 1)"
  have mpos: "0 < m - 1" using m2 by simp
  have k1: "1 \<le> k" unfolding k_def using mpos bitlen_eq_zero_iff [of "m - 1"] bitlen_nonneg [of "m - 1"] by linarith
  from bitlen_bounds [OF mpos] have lo: "2 ^ nat (k - 1) \<le> m - 1" and hi: "m - 1 < 2 ^ nat k"
    by (auto simp: k_def)
  have e: "floor_log2 x = - k" using False by (simp add: floor_log2_def m_def k_def)
  have "m \<le> 2 ^ nat k" using hi by simp
  then have "(of_int m :: rat) \<le> 2 ^ nat k" by simp
  moreover have "1 / x \<le> of_int m" unfolding m_def by linarith
  ultimately have "1 / x \<le> 2 ^ nat k" by linarith
  then have "1 \<le> 2 ^ nat k * x" using assms by (simp add: field_simps)
  then have "1 / 2 ^ nat k \<le> x" by (simp add: field_simps)
  moreover have "(2::rat) powi (- k) = 1 / 2 ^ nat k" using k1 by (simp add: power_int_def field_simps)
  ultimately have A: "2 powi (floor_log2 x) \<le> x" by (simp add: e)
  have "(2 ^ nat (k - 1) :: rat) \<le> of_int (m - 1)" using lo by (simp flip: of_int_diff)
  moreover have "of_int (m - 1) < 1 / x" unfolding m_def by linarith
  ultimately have "2 ^ nat (k - 1) < 1 / x" by linarith
  then have "2 ^ nat (k - 1) * x < 1" using assms by (simp add: field_simps)
  then have "x < 1 / 2 ^ nat (k - 1)" by (simp add: field_simps)
  moreover have "(2::rat) powi (- k + 1) = 1 / 2 ^ nat (k - 1)"
  proof -
    have "- k + 1 = - (k - 1)" by simp
    then have "(2::rat) powi (- k + 1) = 2 powi (- (k - 1))" by (simp only:)
    also have "\<dots> = 1 / 2 powi (k - 1)" by (simp only: power_int_minus_divide)
    also have "\<dots> = 1 / 2 ^ nat (k - 1)" using k1 by (simp add: power_int_def)
    finally show ?thesis .
  qed
  ultimately have B: "x < 2 powi (floor_log2 x + 1)" by (simp add: e)
  from A B show ?thesis ..
qed

lemma floor_log2_eq:
  assumes "2 powi e \<le> x" "x < 2 powi (e + 1)"
  shows "floor_log2 x = e"
proof -
  have pos: "0 < x" using assms(1) powi2_pos [of e] by linarith
  from floor_log2_bounds [OF pos] have a: "2 powi (floor_log2 x) \<le> x" and b: "x < 2 powi (floor_log2 x + 1)"
    by auto
  have "(2::rat) powi e < 2 powi (floor_log2 x + 1)" using assms(1) b by linarith
  then have 1: "e < floor_log2 x + 1" by (simp only: powi2_less_iff)
  have "(2::rat) powi (floor_log2 x) < 2 powi (e + 1)" using assms(2) a by linarith
  then have 2: "floor_log2 x < e + 1" by (simp only: powi2_less_iff)
  from 1 2 show ?thesis by linarith
qed

subsection \<open>Rounding to the nearest integer, ties to even\<close>

lemma rhe_of_int: "round_half_even (of_int n) = n"
  by (simp add: round_half_even_def)

lemma rhe_upper: "of_int (round_half_even y) \<le> y + 1 / 2"
  unfolding round_half_even_def Let_def
  by (auto simp: not_less) linarith+

lemma rhe_lower: "y - 1 / 2 \<le> of_int (round_half_even y)"
  unfolding round_half_even_def Let_def
  by (auto simp: not_less) linarith+



lemma rhe_nearest:
  assumes "\<bar>y - of_int m\<bar> < 1 / 2"
  shows "round_half_even y = m"
proof -
  from assms have a: "y - of_int m < 1 / 2" "- (y - of_int m) < 1 / 2"
    by (simp_all only: abs_less_iff)
  have "(of_int (round_half_even y) :: rat) < of_int m + 1"
    using rhe_upper [of y] a by linarith
  then have "(of_int (round_half_even y) :: rat) < of_int (m + 1)" by simp
  then have 1: "round_half_even y < m + 1" by (simp only: of_int_less_iff)
  have "(of_int m :: rat) - 1 < of_int (round_half_even y)"
    using rhe_lower [of y] a by linarith
  then have "(of_int (m - 1) :: rat) < of_int (round_half_even y)" by simp
  then have 2: "m - 1 < round_half_even y" by (simp only: of_int_less_iff)
  from 1 2 show ?thesis by linarith
qed

lemma rhe_tie_even:
  assumes "y = of_int m + 1 / 2" "even m"
  shows "round_half_even y = m"
proof -
  have "\<lfloor>y\<rfloor> = m" unfolding assms(1) by linarith
  then show ?thesis using assms by (simp add: round_half_even_def)
qed

lemma rhe_minus: "round_half_even (- y) = - round_half_even y"
proof (cases "y = of_int \<lfloor>y\<rfloor>")
  case True
  then obtain n where "y = of_int n" ..
  then show ?thesis by (simp add: rhe_of_int flip: of_int_minus)
next
  case False
  define f where "f = \<lfloor>y\<rfloor>"
  have lt: "of_int f < y" "y < of_int f + 1" using False unfolding f_def by linarith+
  have fl: "\<lfloor>- y\<rfloor> = - f - 1" using lt by linarith
  show ?thesis
    using lt unfolding round_half_even_def Let_def fl f_def [symmetric]
    by (auto simp: not_less)
qed

lemma quantum_minus: "quantum (- x) = quantum x"
  by (simp add: quantum_def)

lemma quantum_pos: "0 < quantum x"
  by (simp add: quantum_def powi2_pos)

lemma rnd_minus: "rnd (- x) = - rnd x"
  by (simp add: rnd_def quantum_minus rhe_minus)

lemma rnd_zero: "rnd 0 = 0"
  by (simp add: rnd_def round_half_even_def)

lemma quantum_eq:
  assumes "2 powi (k + 52) \<le> \<bar>x\<bar>" "\<bar>x\<bar> < 2 powi (k + 53)" "- 1074 \<le> k"
  shows "quantum x = 2 powi k"
proof -
  have "floor_log2 \<bar>x\<bar> = k + 52"
    using assms(1,2) by (intro floor_log2_eq) (simp_all add: add.assoc)
  then show ?thesis using assms(3) by (simp add: quantum_def max_def)
qed

lemma rnd_nearest:
  assumes "2 powi (k + 52) \<le> \<bar>x\<bar>" "\<bar>x\<bar> < 2 powi (k + 53)" "- 1074 \<le> k"
    and "\<bar>x / 2 powi k - of_int m\<bar> < 1 / 2"
  shows "rnd x = of_int m * 2 powi k"
  using assms by (simp add: rnd_def quantum_eq rhe_nearest)

lemma rnd_tie_even:
  assumes "2 powi (k + 52) \<le> \<bar>x\<bar>" "\<bar>x\<bar> < 2 powi (k + 53)" "- 1074 \<le> k"
    and "x / 2 powi k = of_int m + 1 / 2" "even m"
  shows "rnd x = of_int m * 2 powi k"
  using assms by (simp add: rnd_def quantum_eq rhe_tie_even)

subsection \<open>Exact results and bounds of the rounded value\<close>

lemma rnd_exact:
  assumes "x / quantum x = of_int m"
  shows "rnd x = x"
proof -
  have "rnd x = of_int m * quantum x" by (simp add: rnd_def assms rhe_of_int)
  also have "\<dots> = x" using quantum_pos [of x] assms by (simp add: field_simps)
  finally show ?thesis .
qed

lemma powi2_nat: "0 \<le> k \<Longrightarrow> (2::rat) powi k = of_int (2 ^ nat k)"
  by (simp add: power_int_def)

lemma rnd_of_int_pos:
  assumes "0 < n" "n \<le> 2 ^ 53"
  shows "rnd (of_int n) = of_int n"
proof -
  define x :: rat where "x = of_int n"
  define e where "e = floor_log2 x"
  have xpos: "0 < x" and x1: "1 \<le> x" using assms(1) by (simp_all add: x_def)
  have xle: "x \<le> 2 powi 53" using assms(2) unfolding x_def
    by (metis of_int_le_iff of_int_numeral of_int_power power_int_numeral)
  from floor_log2_bounds [OF xpos] have lo: "2 powi e \<le> x" and hi: "x < 2 powi (e + 1)"
    by (auto simp: e_def)
  have "(2::rat) powi 0 < 2 powi (e + 1)" using x1 hi by simp
  then have e0: "0 \<le> e" by (simp only: powi2_less_iff)
  have "(2::rat) powi e \<le> 2 powi 53" using lo xle by linarith
  then have e53: "e \<le> 53" by (simp only: powi2_le_iff)
  have "max (e - 52) (- 1074) = e - 52" using e0 by simp
  then have q: "quantum x = 2 powi (e - 52)" using xpos by (simp add: quantum_def e_def)
  show ?thesis
  proof (cases "e \<le> 52")
    case True
    have "x / quantum x = x * 2 powi (52 - e)"
      unfolding q by (simp add: power_int_diff field_simps)
    also have "\<dots> = of_int (n * 2 ^ nat (52 - e))"
      using True by (simp add: powi2_nat x_def)
    finally show ?thesis unfolding x_def [symmetric] by (rule rnd_exact)
  next
    case False
    then have e: "e = 53" using e53 by simp
    have "x = 2 powi 53" using lo xle e by simp
    then have "x / quantum x = of_int (2 ^ 52)" unfolding q e by simp
    then show ?thesis unfolding x_def [symmetric] by (rule rnd_exact)
  qed
qed

lemma rnd_of_int:
  assumes "\<bar>n\<bar> \<le> 2 ^ 53"
  shows "rnd (of_int n) = of_int n"
proof -
  consider "0 < n" | "n = 0" | "n < 0" by linarith
  then show ?thesis
  proof cases
    case 1 then show ?thesis using assms by (simp add: rnd_of_int_pos)
  next
    case 2 then show ?thesis by (simp add: rnd_zero)
  next
    case 3
    then have "rnd (of_int (- n)) = of_int (- n)" using assms by (intro rnd_of_int_pos) simp_all
    then show ?thesis by (simp add: rnd_minus)
  qed
qed

lemma round_double_of_int:
  assumes "\<bar>n\<bar> \<le> 2 ^ 53"
  shows "round_double (of_int n) = Dbl (of_int n)"
proof -
  have "\<bar>of_int n :: rat\<bar> \<le> 2 ^ 53" using assms
    by (metis of_int_abs of_int_le_iff of_int_numeral of_int_power)
  moreover have "(2::rat) ^ 53 < overflow_threshold" by (simp add: overflow_threshold_def)
  ultimately have "\<not> overflow_threshold \<le> \<bar>of_int n :: rat\<bar>" by linarith
  then show ?thesis using assms by (simp add: round_double_def rnd_of_int Let_def)
qed

lemma round_double_not_nan: "\<not> is_nan (round_double x)"
  by (simp add: round_double_def Let_def)

lemma d_of_int_exact: "\<bar>n\<bar> \<le> 2 ^ 53 \<Longrightarrow> d_of_int n = Dbl (of_int n)"
  by (simp add: d_of_int_def round_double_of_int)




lemma rnd_two_tie:
  assumes "2 \<le> x" "x \<le> 2 + 1 / 2 ^ 52"
  shows "rnd x = 2"
proof -
  have b: "2 powi (- 51 + 52) \<le> \<bar>x\<bar>" "\<bar>x\<bar> < 2 powi (- 51 + 53)" using assms by simp_all
  have "rnd x = of_int (2 ^ 52) * 2 powi (- 51)"
  proof (cases "x = 2 + 1 / 2 ^ 52")
    case True
    show ?thesis by (rule rnd_tie_even [OF b]) (simp_all add: True)
  next
    case False
    then have "x < 2 + 1 / 2 ^ 52" using assms by simp
    then have "\<bar>x / 2 powi (- 51) - of_int (2 ^ 52)\<bar> < 1 / 2" using assms(1) by simp
    then show ?thesis by (intro rnd_nearest [OF b]) simp_all
  qed
  then show ?thesis by simp
qed


section \<open>Loops\<close>

lemma for_loop_fold: "for_loop i hi body s = fold body [i..<hi] s"
proof (induction i hi body s rule: for_loop.induct)
  case (1 i hi body s)
  show ?case
  proof (cases "i < hi")
    case True
    then show ?thesis using 1 by (simp add: for_loop.simps [of i] upt_conv_Cons)
  next
    case False
    then show ?thesis by (simp add: for_loop.simps [of i])
  qed
qed

lemma for_loop_empty: "hi \<le> i \<Longrightarrow> for_loop i hi body s = s"
  by (simp add: for_loop.simps [of i])

lemma for_loop_Suc: "i \<le> n \<Longrightarrow> for_loop i (Suc n) body s = body n (for_loop i n body s)"
  by (simp add: for_loop_fold)

lemma for_loop_step: "i < hi \<Longrightarrow> for_loop i hi body s = for_loop (Suc i) hi body (body i s)"
  by (simp add: for_loop.simps [of i])

lemma for_loop_invariant:
  assumes "P s" and "\<And>j t. i \<le> j \<Longrightarrow> j < hi \<Longrightarrow> P t \<Longrightarrow> P (body j t)"
  shows "P (for_loop i hi body s)"
  using assms
proof (induction i hi body s rule: for_loop.induct)
  case (1 i hi body s)
  show ?case
  proof (cases "i < hi")
    case True
    have "P (for_loop (Suc i) hi body (body i s))"
    proof (rule 1(1) [OF True])
      show "P (body i s)" using 1(2) True by (simp add: 1(3))
    next
      fix j t assume "Suc i \<le> j" "j < hi" "P t"
      then show "P (body j t)" using 1(3) [of j t] by simp
    qed
    then show ?thesis using True by (simp add: for_loop.simps [of i])
  next
    case False
    then show ?thesis using 1(2) by (simp add: for_loop.simps [of i])
  qed
qed

lemma null_rho_iter_length: "length (snd (null_rho_iter ext n c S it st)) = length (snd st)"
  by (simp add: null_rho_iter_def Let_def)

lemma null_rho_loop_length:
  "length (snd (for_loop i hi (null_rho_iter ext n c S) st)) = length (snd st)"
  by (rule for_loop_invariant [where P = "\<lambda>t. length (snd t) = length (snd st)"])
     (simp_all add: null_rho_iter_length)

lemma mode_step_no_raise:
  "(\<forall>msg. acc \<noteq> Inl (Runtime_Error msg)) \<Longrightarrow> (\<forall>msg. mode_step ext mode acc \<noteq> Inl (Runtime_Error msg))"
  by (auto simp: mode_step_def residual_ranks_def Let_def split: sum.splits prod.splits if_splits)

lemma design_iter_no_raise:
  assumes "\<forall>msg. acc \<noteq> Inl (Runtime_Error msg)"
  shows "\<forall>msg. design_iter ext n c S it acc \<noteq> Inl (Runtime_Error msg)"
proof (cases acc)
  case (Inl e)
  then show ?thesis using assms by (simp add: design_iter_def)
next
  case (Inr st)
  have "\<forall>msg. for_loop 0 2 (mode_step ext) (Inr ((normal_init ext, mt19937 ext (S ! it)), st)) \<noteq> Inl (Runtime_Error msg)"
    by (rule for_loop_invariant [where P = "\<lambda>a. \<forall>msg. a \<noteq> Inl (Runtime_Error msg)"])
       (simp_all add: mode_step_no_raise)
  then show ?thesis using Inr
    by (auto simp: design_iter_def Let_def split: sum.splits prod.splits)
qed

lemma design_loop_no_raise:
  "for_loop i hi (design_iter ext n c S) (Inr st) \<noteq> Inl (Runtime_Error msg)"
proof -
  have "\<forall>msg. for_loop i hi (design_iter ext n c S) (Inr st) \<noteq> Inl (Runtime_Error msg)"
    by (rule for_loop_invariant [where P = "\<lambda>a. \<forall>msg. a \<noteq> Inl (Runtime_Error msg)"])
       (simp_all add: design_iter_no_raise)
  then show ?thesis by simp
qed

lemma design_raises_iff:
  "(\<exists>msg. get_null_rho_design ext mq Niters Seeds = Inl (Runtime_Error msg)) =
     (Niters \<le> 0 \<or> int (length Seeds) \<noteq> Niters)"
  by (auto simp: get_null_rho_design_def Let_def design_loop_no_raise split: sum.splits)

section \<open>Argument checks\<close>

text \<open>
  C5. The sampler without a design matrix raises an error exactly when the number of
  cells is at most 1, or the number of iterations is negative, or the number of seeds
  differs from the number of iterations; on every other input it returns a vector.
\<close>

theorem get_null_rho_raises_iff:
  "(\<exists>msg. get_null_rho ext Ncells Niters Seeds = Inl (Runtime_Error msg)) =
     (Ncells \<le> 1 \<or> Niters < 0 \<or> int (length Seeds) \<noteq> Niters)
   \<and> (\<exists>out. get_null_rho ext Ncells Niters Seeds = Inr out) =
     (\<not> (Ncells \<le> 1 \<or> Niters < 0 \<or> int (length Seeds) \<noteq> Niters))"
  by (simp add: get_null_rho_def Let_def)

theorem get_null_rho_raises_iff_witness:
  "(\<exists>msg. get_null_rho rev_stdlib 1 1 [5] = Inl (Runtime_Error msg))
   \<and> (\<exists>msg. get_null_rho rev_stdlib 3 (- 1) [] = Inl (Runtime_Error msg))
   \<and> (\<exists>msg. get_null_rho rev_stdlib 3 3 [5, 6] = Inl (Runtime_Error msg))
   \<and> (\<exists>out. get_null_rho rev_stdlib 3 2 [5, 6] = Inr out)"
  using get_null_rho_raises_iff [of rev_stdlib 1 1 "[5]"]
    get_null_rho_raises_iff [of rev_stdlib 3 "- 1" "[]"]
    get_null_rho_raises_iff [of rev_stdlib 3 3 "[5, 6]"]
    get_null_rho_raises_iff [of rev_stdlib 3 2 "[5, 6]"]
  by simp

text \<open>
  C10. With two cells the sampler without a design matrix returns a vector of as many
  values as iterations; it accepts exactly the numbers of cells from 2 on, although the
  message of the check says "greater than 2".
\<close>

theorem two_cells_accepted:
  assumes "0 \<le> Niters" "int (length Seeds) = Niters"
  shows "(\<exists>out. get_null_rho ext 2 Niters Seeds = Inr out \<and> length out = nat Niters)
    \<and> (\<exists>out. get_null_rho ext Ncells Niters Seeds = Inr out) = (2 \<le> Ncells)
    \<and> get_null_rho ext 1 Niters Seeds =
        Inl (Runtime_Error ''number of cells should be greater than 2'')"
  using assms by (auto simp: get_null_rho_def Let_def null_rho_loop_length)

theorem two_cells_accepted_witness:
  "(0::int) \<le> 1 \<and> int (length [5::int]) = 1
   \<and> (\<exists>out. get_null_rho rev_stdlib 2 1 [5] = Inr out \<and> length out = nat 1)
   \<and> (\<exists>out. get_null_rho rev_stdlib 2 1 [5] = Inr out) = ((2::int) \<le> 2)
   \<and> get_null_rho rev_stdlib 1 1 [5] =
        Inl (Runtime_Error ''number of cells should be greater than 2'')"
  using two_cells_accepted [of 1 "[5]" rev_stdlib 2] by simp

text \<open>
  C2 does not hold as stated: with no iteration and no seed the sampler with a design
  matrix raises an error, whatever the factorization.
\<close>

theorem zero_iterations_counterexample:
  "get_null_rho_design rev_stdlib (identity_qr 2 1) 0 [] \<noteq> Inr []"
  by (simp add: get_null_rho_design_def)

text \<open>
  C2, amended. With no iteration and no seed, the sampler without a design matrix returns
  the empty vector for every number of cells above 1, and the sampler with a design
  matrix raises the error of its first check for every factorization.
\<close>

theorem zero_iterations:
  "(1 < Ncells \<longrightarrow> get_null_rho ext Ncells 0 [] = Inr [])
   \<and> get_null_rho_design ext' mq 0 [] =
       Inl (Runtime_Error ''number of iterations should be positive'')"
  by (simp add: get_null_rho_def get_null_rho_design_def for_loop_empty)

theorem zero_iterations_witness:
  "(1::int) < 2 \<and> get_null_rho rev_stdlib 2 0 [] = Inr []
   \<and> get_null_rho_design rev_stdlib (identity_qr 2 1) 0 [] =
       Inl (Runtime_Error ''number of iterations should be positive'')"
  using zero_iterations [of 2 rev_stdlib rev_stdlib "identity_qr 2 1"] by simp

section \<open>The checks precede the work\<close>

lemma logged_simps:
  "return_logged x l = (Inr x, l)"
  "throw_logged msg l = (Inl (Runtime_Error msg), l)"
  "emit ev l = (Inr (), l @ [ev])"
  "lift_logged r l = (r, l)"
  "then_logged (emit ev) k l = k (l @ [ev])"
  "then_logged (check_logged c msg) k l = (if c then (Inl (Runtime_Error msg), l) else k l)"
  "bind_logged (return_logged x) f l = f x l"
  by (simp_all add: return_logged_def throw_logged_def emit_def lift_logged_def then_logged_def
      bind_logged_def check_logged_def)

lemma bind_logged_fst:
  "fst (bind_logged m (\<lambda>st. return_logged (f st)) l) = map_sum id f (fst (m l))"
  by (simp add: bind_logged_def return_logged_def split: prod.splits sum.splits)

lemma bind_logged_snd:
  "snd (bind_logged m (\<lambda>st. return_logged (f st)) l) = snd (m l)"
  by (simp add: bind_logged_def return_logged_def split: prod.splits sum.splits)

lemma loop_logged_pure:
  assumes "\<And>i t l. body i t l = (Inr (f i t), l @ g i)"
  shows "loop_logged 0 k body s l = (Inr (for_loop 0 k f s), l @ concat (map g [0..<k]))"
proof (induction k)
  case 0
  show ?case by (simp add: loop_logged_def for_loop_empty)
next
  case (Suc k)
  then show ?case by (simp add: loop_logged_def for_loop_Suc assms)
qed

lemma loop_logged_fst:
  assumes "\<And>i t l. fst (body i t l) = f i (Inr t)" "\<And>i e. f i (Inl e) = Inl e"
  shows "fst (loop_logged 0 k body s l) = for_loop 0 k f (Inr s)"
proof (induction k)
  case 0
  show ?case by (simp add: loop_logged_def for_loop_empty)
next
  case (Suc k)
  obtain r l' where r: "loop_logged 0 k body s l = (r, l')" by (cases "loop_logged 0 k body s l")
  then have IH: "for_loop 0 k f (Inr s) = r" using Suc by simp
  have "loop_logged 0 (Suc k) body s l =
      (case (r, l') of (Inl e, l) \<Rightarrow> (Inl e, l) | (Inr t, l) \<Rightarrow> body k t l)"
    using r by (simp add: loop_logged_def for_loop_Suc)
  then show ?case
    by (cases r) (simp_all add: for_loop_Suc IH assms)
qed

lemma loop_logged_extends:
  fixes body :: "nat \<Rightarrow> 's \<Rightarrow> 's logged" and acc :: "(error + 's) \<times> event list"
  assumes "\<And>i t l. \<exists>ys. snd (body i t l) = l @ ys"
  shows "\<exists>ys. snd (for_loop i hi
            (\<lambda>i acc. case acc of (Inl e, l) \<Rightarrow> (Inl e, l) | (Inr t, l) \<Rightarrow> body i t l) acc)
          = snd acc @ ys"
proof (rule for_loop_invariant [where P = "\<lambda>a. \<exists>ys. snd a = snd acc @ ys"])
  show "\<exists>ys. snd acc = snd acc @ ys" by simp
next
  fix j and t :: "(error + 's) \<times> event list"
  assume "\<exists>ys. snd t = snd acc @ ys"
  then obtain ys where ys: "snd t = snd acc @ ys" by blast
  obtain r l where t: "t = (r, l)" by (cases t)
  show "\<exists>ys. snd (case t of (Inl e, l) \<Rightarrow> (Inl e, l) | (Inr t, l) \<Rightarrow> body j t l) = snd acc @ ys"
  proof (cases r)
    case (Inl e)
    then show ?thesis using ys t by simp
  next
    case (Inr u)
    from assms [of j u l] obtain zs where "snd (body j u l) = l @ zs" by blast
    then show ?thesis using ys t Inr by simp
  qed
qed

lemma get_null_rho_logged_eq:
  "get_null_rho_logged ext Ncells Niters Seeds [] =
     (if Ncells \<le> 1 \<or> Niters < 0 \<or> int (length Seeds) \<noteq> Niters
      then (get_null_rho ext Ncells Niters Seeds, [])
      else (get_null_rho ext Ncells Niters Seeds,
            Allocate_Vectors #
            concat (map (\<lambda>it. [Seed_Generator (Seeds ! it), Store_Result it]) [0..<length Seeds])))"
proof -
  have body: "then_logged (emit (Seed_Generator (Seeds ! it)))
      (bind_logged
         (return_logged (null_rho_iter ext (nat Ncells) (rho_mult (d_of_int Ncells)) Seeds it st))
         (\<lambda>st'. then_logged (emit (Store_Result it)) (return_logged st'))) l =
      (Inr (null_rho_iter ext (nat Ncells) (rho_mult (d_of_int Ncells)) Seeds it st),
       l @ [Seed_Generator (Seeds ! it), Store_Result it])" for it st l
    by (simp add: logged_simps)
  note loop = loop_logged_pure [where body = "\<lambda>it st.
      then_logged (emit (Seed_Generator (Seeds ! it)))
        (bind_logged
           (return_logged (null_rho_iter ext (nat Ncells) (rho_mult (d_of_int Ncells)) Seeds it st))
           (\<lambda>st'. then_logged (emit (Store_Result it)) (return_logged st')))"
      and f = "null_rho_iter ext (nat Ncells) (rho_mult (d_of_int Ncells)) Seeds"
      and g = "\<lambda>it. [Seed_Generator (Seeds ! it), Store_Result it]", OF body]
  show ?thesis
    by (auto simp: get_null_rho_logged_def get_null_rho_def logged_simps Let_def
        bind_logged_def loop return_logged_def)
qed

lemma get_null_rho_design_logged_fst:
  "fst (get_null_rho_design_logged ext mq Niters Seeds []) =
     get_null_rho_design ext mq Niters Seeds"
proof -
  define c where "c = rho_mult (d_of_int (int (get_nobs mq)))"
  define body where "body = (\<lambda>it st.
      then_logged (emit (Seed_Generator (Seeds ! it)))
        (bind_logged (lift_logged (design_iter ext (get_nobs mq) c Seeds it (Inr st)))
           (\<lambda>st'. then_logged (emit (Store_Result it)) (return_logged st'))))"
  have b: "fst (body it st l) = design_iter ext (get_nobs mq) c Seeds it (Inr st)" for it st l
    by (simp add: body_def logged_simps bind_logged_def split: sum.splits)
  have e: "design_iter ext (get_nobs mq) c Seeds it (Inl e) = Inl e" for it e
    by (simp add: design_iter_def)
  have loop: "fst (loop_logged 0 k body s l) =
      for_loop 0 k (design_iter ext (get_nobs mq) c Seeds) (Inr s)" for k s l
    by (rule loop_logged_fst) (simp_all add: b e)
  have "fst (bind_logged (loop_logged 0 k body s) (\<lambda>st. return_logged (outputs st)) l) =
      (case for_loop 0 k (design_iter ext (get_nobs mq) c Seeds) (Inr s) of
         Inl e \<Rightarrow> Inl e | Inr st \<Rightarrow> Inr (outputs st))" for k s l
    by (simp add: bind_logged_fst loop split: sum.splits)
  then show ?thesis
    by (simp add: get_null_rho_design_logged_def get_null_rho_design_def logged_simps Let_def
        body_def [symmetric] c_def [symmetric])
qed

lemma get_null_rho_design_logged_snd:
  "snd (get_null_rho_design_logged ext mq Niters Seeds []) = [] \<and>
     (Niters \<le> 0 \<or> int (length Seeds) \<noteq> Niters)
   \<or> (\<exists>rest. snd (get_null_rho_design_logged ext mq Niters Seeds []) =
         Construct_Factorization # Allocate_Vectors # Seed_Generator (Seeds ! 0) # rest) \<and>
     \<not> (Niters \<le> 0 \<or> int (length Seeds) \<noteq> Niters)"
proof (cases "Niters \<le> 0 \<or> int (length Seeds) \<noteq> Niters")
  case True
  then show ?thesis by (auto simp: get_null_rho_design_logged_def logged_simps)
next
  case False
  define c where "c = rho_mult (d_of_int (int (get_nobs mq)))"
  define body where "body = (\<lambda>it st.
      then_logged (emit (Seed_Generator (Seeds ! it)))
        (bind_logged (lift_logged (design_iter ext (get_nobs mq) c Seeds it (Inr st)))
           (\<lambda>st'. then_logged (emit (Store_Result it)) (return_logged st'))))"
  define wrapped where "wrapped = (\<lambda>i (acc :: (error + design_state) \<times> event list).
      case acc of (Inl e, l) \<Rightarrow> (Inl e, l) | (Inr t, l) \<Rightarrow> body i t l)"
  define l0 where "l0 = [Construct_Factorization, Allocate_Vectors]"
  define s0 where "s0 = design_init mq (nat Niters)"
  have ext_body: "\<exists>ys. snd (body i t l) = l @ ys" for i t l
    by (simp add: body_def logged_simps bind_logged_def split: sum.splits)
  have first: "\<exists>ys. snd (body 0 t l) = l @ Seed_Generator (Seeds ! 0) # ys" for t l
    by (simp add: body_def logged_simps bind_logged_def split: sum.splits)
  then obtain ys where ys: "snd (body 0 s0 l0) = l0 @ Seed_Generator (Seeds ! 0) # ys"
    by blast
  have pos: "0 < nat Niters" using False by simp
  have "loop_logged 0 (nat Niters) body s0 l0 = for_loop 0 (nat Niters) wrapped (Inr s0, l0)"
    by (simp only: loop_logged_def wrapped_def)
  also have "\<dots> = for_loop (Suc 0) (nat Niters) wrapped (wrapped 0 (Inr s0, l0))"
    using pos by (rule for_loop_step)
  also have "wrapped 0 (Inr s0, l0) = body 0 s0 l0" by (simp add: wrapped_def)
  finally have unroll: "loop_logged 0 (nat Niters) body s0 l0 =
      for_loop (Suc 0) (nat Niters) wrapped (body 0 s0 l0)" .
  from loop_logged_extends [of body "Suc 0" "nat Niters" "body 0 s0 l0", OF ext_body]
  obtain zs where "snd (for_loop (Suc 0) (nat Niters) wrapped (body 0 s0 l0)) =
      snd (body 0 s0 l0) @ zs"
    unfolding wrapped_def by blast
  then have "snd (loop_logged 0 (nat Niters) body s0 l0) =
      l0 @ Seed_Generator (Seeds ! 0) # (ys @ zs)"
    by (simp only: unroll ys append_assoc append_Cons)
  moreover have "snd (get_null_rho_design_logged ext mq Niters Seeds []) =
      snd (loop_logged 0 (nat Niters) body s0 l0)"
    using False
    by (simp add: get_null_rho_design_logged_def logged_simps bind_logged_snd
        body_def c_def l0_def s0_def)
  ultimately have "snd (get_null_rho_design_logged ext mq Niters Seeds []) =
      Construct_Factorization # Allocate_Vectors # Seed_Generator (Seeds ! 0) # (ys @ zs)"
    by (simp add: l0_def)
  then show ?thesis using False by blast
qed

text \<open>
  C8. The checks of the counts are the first statements of both samplers. When a call
  raises the error of a check, nothing of the simulation has been done: the object of the
  factorization has not been built, no vector has been allocated, no generator has been
  made from a seed and no value of an iteration has been stored; the result is the error
  alone, not a vector. A call that raises no such error has allocated its vectors and
  entered its iterations in the order of the seeds. The results of the samplers written
  with the log are the results of the samplers.
\<close>

theorem errors_precede_simulation:
  "fst (get_null_rho_logged ext Ncells Niters Seeds []) = get_null_rho ext Ncells Niters Seeds
   \<and> fst (get_null_rho_design_logged ext mq Diters Dseeds []) =
       get_null_rho_design ext mq Diters Dseeds
   \<and> ((\<exists>msg. get_null_rho ext Ncells Niters Seeds = Inl (Runtime_Error msg)) \<longrightarrow>
        snd (get_null_rho_logged ext Ncells Niters Seeds []) = [])
   \<and> ((\<exists>msg. get_null_rho_design ext mq Diters Dseeds = Inl (Runtime_Error msg)) \<longrightarrow>
        snd (get_null_rho_design_logged ext mq Diters Dseeds []) = [])
   \<and> ((\<forall>msg. get_null_rho ext Ncells Niters Seeds \<noteq> Inl (Runtime_Error msg)) \<longrightarrow>
        snd (get_null_rho_logged ext Ncells Niters Seeds []) =
          Allocate_Vectors #
          concat (map (\<lambda>it. [Seed_Generator (Seeds ! it), Store_Result it]) [0..<length Seeds]))
   \<and> ((\<forall>msg. get_null_rho_design ext mq Diters Dseeds \<noteq> Inl (Runtime_Error msg)) \<longrightarrow>
        (\<exists>rest. snd (get_null_rho_design_logged ext mq Diters Dseeds []) =
           Construct_Factorization # Allocate_Vectors # Seed_Generator (Dseeds ! 0) # rest))"
proof (intro conjI impI)
  show "fst (get_null_rho_logged ext Ncells Niters Seeds []) = get_null_rho ext Ncells Niters Seeds"
    by (simp add: get_null_rho_logged_eq)
  show "fst (get_null_rho_design_logged ext mq Diters Dseeds []) =
       get_null_rho_design ext mq Diters Dseeds"
    by (rule get_null_rho_design_logged_fst)
next
  assume raised: "\<exists>msg. get_null_rho ext Ncells Niters Seeds = Inl (Runtime_Error msg)"
  have "Ncells \<le> 1 \<or> Niters < 0 \<or> int (length Seeds) \<noteq> Niters"
  proof (rule ccontr)
    assume "\<not> (Ncells \<le> 1 \<or> Niters < 0 \<or> int (length Seeds) \<noteq> Niters)"
    then have "\<exists>out. get_null_rho ext Ncells Niters Seeds = Inr out"
      by (simp add: get_null_rho_def Let_def)
    then show False using raised by auto
  qed
  then show "snd (get_null_rho_logged ext Ncells Niters Seeds []) = []"
    by (simp add: get_null_rho_logged_eq)
next
  assume "\<exists>msg. get_null_rho_design ext mq Diters Dseeds = Inl (Runtime_Error msg)"
  then have "Diters \<le> 0 \<or> int (length Dseeds) \<noteq> Diters"
    by (simp add: design_raises_iff)
  then show "snd (get_null_rho_design_logged ext mq Diters Dseeds []) = []"
    using get_null_rho_design_logged_snd [of ext mq Diters Dseeds] by blast
next
  assume ok: "\<forall>msg. get_null_rho ext Ncells Niters Seeds \<noteq> Inl (Runtime_Error msg)"
  have "\<not> (Ncells \<le> 1 \<or> Niters < 0 \<or> int (length Seeds) \<noteq> Niters)"
  proof
    assume "Ncells \<le> 1 \<or> Niters < 0 \<or> int (length Seeds) \<noteq> Niters"
    then have "\<exists>msg. get_null_rho ext Ncells Niters Seeds = Inl (Runtime_Error msg)"
      by (auto simp: get_null_rho_def)
    then show False using ok by blast
  qed
  then show "snd (get_null_rho_logged ext Ncells Niters Seeds []) =
      Allocate_Vectors #
      concat (map (\<lambda>it. [Seed_Generator (Seeds ! it), Store_Result it]) [0..<length Seeds])"
    by (simp add: get_null_rho_logged_eq)
next
  assume "\<forall>msg. get_null_rho_design ext mq Diters Dseeds \<noteq> Inl (Runtime_Error msg)"
  then have "\<not> (Diters \<le> 0 \<or> int (length Dseeds) \<noteq> Diters)"
    using design_raises_iff [of ext mq Diters Dseeds] by blast
  then show "\<exists>rest. snd (get_null_rho_design_logged ext mq Diters Dseeds []) =
      Construct_Factorization # Allocate_Vectors # Seed_Generator (Dseeds ! 0) # rest"
    using get_null_rho_design_logged_snd [of ext mq Diters Dseeds] by blast
qed

theorem errors_precede_simulation_witness:
  "get_null_rho rev_stdlib 1 2 [5, 6] =
     Inl (Runtime_Error ''number of cells should be greater than 2'')
   \<and> get_null_rho_logged rev_stdlib 1 2 [5, 6] [] =
     (Inl (Runtime_Error ''number of cells should be greater than 2''), [])
   \<and> get_null_rho_design rev_stdlib (identity_qr 3 1) 2 [5] =
     Inl (Runtime_Error ''number of iterations and seeds should be the same'')
   \<and> get_null_rho_design_logged rev_stdlib (identity_qr 3 1) 2 [5] [] =
     (Inl (Runtime_Error ''number of iterations and seeds should be the same''), [])
   \<and> snd (get_null_rho_logged rev_stdlib 2 2 [5, 6] []) =
     [Allocate_Vectors, Seed_Generator 5, Store_Result 0, Seed_Generator 6, Store_Result 1]
   \<and> (\<exists>rest. snd (get_null_rho_design_logged rev_stdlib (identity_qr 3 1) 1 [5] []) =
         Construct_Factorization # Allocate_Vectors # Seed_Generator 5 # rest)"
proof -
  have a: "get_null_rho rev_stdlib 1 2 [5, 6] =
     Inl (Runtime_Error ''number of cells should be greater than 2'')"
    by (simp add: get_null_rho_def)
  have b: "get_null_rho_design rev_stdlib (identity_qr 3 1) 2 [5] =
     Inl (Runtime_Error ''number of iterations and seeds should be the same'')"
    by (simp add: get_null_rho_design_def)
  note t = errors_precede_simulation [of rev_stdlib 1 2 "[5, 6]" "identity_qr 3 1" 2 "[5]"]
  from t a have "fst (get_null_rho_logged rev_stdlib 1 2 [5, 6] []) =
       Inl (Runtime_Error ''number of cells should be greater than 2'')"
    by simp
  moreover from t a have "snd (get_null_rho_logged rev_stdlib 1 2 [5, 6] []) = []"
    by blast
  ultimately have c: "get_null_rho_logged rev_stdlib 1 2 [5, 6] [] =
     (Inl (Runtime_Error ''number of cells should be greater than 2''), [])"
    by (simp add: prod_eq_iff)
  from t b have "fst (get_null_rho_design_logged rev_stdlib (identity_qr 3 1) 2 [5] []) =
       Inl (Runtime_Error ''number of iterations and seeds should be the same'')"
    by simp
  moreover from t b have "snd (get_null_rho_design_logged rev_stdlib (identity_qr 3 1) 2 [5] []) = []"
    by blast
  ultimately have d: "get_null_rho_design_logged rev_stdlib (identity_qr 3 1) 2 [5] [] =
     (Inl (Runtime_Error ''number of iterations and seeds should be the same''), [])"
    by (simp add: prod_eq_iff)
  have "\<exists>out. get_null_rho rev_stdlib 2 2 [5, 6] = Inr out"
    by (simp add: get_null_rho_def Let_def)
  then have e: "\<forall>msg. get_null_rho rev_stdlib 2 2 [5, 6] \<noteq> Inl (Runtime_Error msg)"
    by auto
  have f: "\<forall>msg. get_null_rho_design rev_stdlib (identity_qr 3 1) 1 [5] \<noteq> Inl (Runtime_Error msg)"
    using design_raises_iff [of rev_stdlib "identity_qr 3 1" 1 "[5]"] by simp
  note u = errors_precede_simulation [of rev_stdlib 2 2 "[5, 6]" "identity_qr 3 1" 1 "[5]"]
  from u e have g: "snd (get_null_rho_logged rev_stdlib 2 2 [5, 6] []) =
     [Allocate_Vectors, Seed_Generator 5, Store_Result 0, Seed_Generator 6, Store_Result 1]"
    by (simp add: upt_conv_Cons del: upt_Suc)
  from u f have h: "\<exists>rest. snd (get_null_rho_design_logged rev_stdlib (identity_qr 3 1) 1 [5] []) =
         Construct_Factorization # Allocate_Vectors # Seed_Generator 5 # rest"
    by simp
  from a b c d g h show ?thesis by blast
qed

section \<open>The values of the sampler without a design matrix\<close>

lemma iota_eq: "iota xs v = map (\<lambda>i. v + int i) [0..<length xs]"
proof (induction xs arbitrary: v)
  case Nil
  show ?case by simp
next
  case (Cons x xs)
  have "[0..<Suc (length xs)] = 0 # map Suc [0..<length xs]"
    by (simp add: upt_conv_Cons map_Suc_upt del: upt_Suc)
  then show ?case by (simp add: Cons comp_def del: upt_Suc)
qed

lemma iota_zero: "iota xs 0 = map int [0..<length xs]"
  by (simp add: iota_eq)

lemma dmul_commute: "dmul a b = dmul b a"
  by (cases "dsign a"; cases "dsign b") (auto simp: dmul_def Let_def mult.commute)

lemma sq_diff_loop:
  "for_loop 0 n (sq_diff_step r) t =
     foldl (\<lambda>acc d. dadd acc (dmul (d_of_int d) (d_of_int d))) t (map (\<lambda>i. r ! i - int i) [0..<n])"
proof -
  have "sq_diff_step r = (\<lambda>i acc. dadd acc (dmul (d_of_int (r ! i - int i)) (d_of_int (r ! i - int i))))"
    by (intro ext) (simp add: sq_diff_step_def Let_def)
  then show ?thesis
    by (simp add: for_loop_fold foldl_conv_fold fold_map comp_def)
qed

lemma null_rho_iter_eq:
  assumes "shuffle_permutes ext" "length (fst st) = N"
  shows "null_rho_iter ext N (scaling_constant N) S it st =
     (shuffle ext (map int [0..<N]) (mt19937 ext (S ! it)),
      (snd st)[it := permutation_rho ext N (S ! it)])"
proof -
  have "\<And>i. i < N \<Longrightarrow> map int [0..<N] ! i = int i" by simp
  then have eq: "map (\<lambda>i. r ! i - map int [0..<N] ! i) [0..<N] = map (\<lambda>i. r ! i - int i) [0..<N]" for r
    by (intro map_cong) simp_all
  show ?thesis
    using assms(2)
    by (simp add: eq null_rho_iter_def Let_def iota_zero sq_diff_loop permutation_rho_def
        rank_correlation_def sum_squares_def dmul_commute [of "scaling_constant N"])
qed

lemma shuffle_length: "shuffle_permutes ext \<Longrightarrow> length (shuffle ext xs g) = length xs"
  by (metis shuffle_permutes_def size_mset)

lemma null_rho_loop_eq:
  assumes "shuffle_permutes ext" "length r0 = N" "length out0 = length S" "k \<le> length S"
  shows "length (fst (for_loop 0 k (null_rho_iter ext N (scaling_constant N) S) (r0, out0))) = N
    \<and> snd (for_loop 0 k (null_rho_iter ext N (scaling_constant N) S) (r0, out0)) =
        map (permutation_rho ext N) (take k S) @ drop k out0"
  using assms(4)
proof (induction k)
  case 0
  show ?case using assms(2) by (simp add: for_loop_empty)
next
  case (Suc k)
  define st where "st = for_loop 0 k (null_rho_iter ext N (scaling_constant N) S) (r0, out0)"
  from Suc have IH: "length (fst st) = N"
    "snd st = map (permutation_rho ext N) (take k S) @ drop k out0"
    by (simp_all add: st_def)
  have k: "k < length S" "k < length out0" using Suc.prems assms(3) by simp_all
  have step: "for_loop 0 (Suc k) (null_rho_iter ext N (scaling_constant N) S) (r0, out0) =
      null_rho_iter ext N (scaling_constant N) S k st"
    by (simp add: for_loop_Suc st_def)
  have upd: "(map (permutation_rho ext N) (take k S) @ drop k out0)[k := v] =
      map (permutation_rho ext N) (take k S) @ v # drop (Suc k) out0" for v
    using k by (simp add: list_update_append Cons_nth_drop_Suc [symmetric])
  show ?case
    unfolding step null_rho_iter_eq [OF assms(1) IH(1)]
    using k by (simp add: IH(2) upd shuffle_length [OF assms(1)] take_Suc_conv_app_nth)
qed

lemma null_rho_values:
  assumes "1 < Ncells" "0 \<le> Niters" "int (length Seeds) = Niters" "shuffle_permutes ext"
  shows "get_null_rho ext Ncells Niters Seeds =
           Inr (map (permutation_rho ext (nat Ncells)) Seeds)
         \<and> length (map (permutation_rho ext (nat Ncells)) Seeds) = nat Niters"
proof -
  have c: "rho_mult (d_of_int Ncells) = scaling_constant (nat Ncells)"
    using assms(1) by (simp add: rho_mult_def scaling_constant_def Let_def)
  have n: "nat Niters = length Seeds" using assms(3) by auto
  have "snd (for_loop 0 (length Seeds)
          (null_rho_iter ext (nat Ncells) (scaling_constant (nat Ncells)) Seeds)
          (replicate (nat Ncells) 0, replicate (length Seeds) (Dbl 0))) =
        map (permutation_rho ext (nat Ncells)) (take (length Seeds) Seeds)
          @ drop (length Seeds) (replicate (length Seeds) (Dbl 0))"
    using null_rho_loop_eq [OF assms(4), of "replicate (nat Ncells) 0" "nat Ncells"
        "replicate (length Seeds) (Dbl 0)" Seeds "length Seeds"]
    by simp
  then show ?thesis
    using assms(1-3) by (simp add: get_null_rho_def Let_def c n)
qed

text \<open>
  C3. For more than one cell, a number of iterations that is not negative and as many
  seeds, where the shuffle reorders its range, the sampler returns one value for each seed,
  in the order of the seeds: the value for a seed is \<open>1 - c \<Sum> (permuted[i] - i)\<^sup>2\<close> over the
  positions \<open>0..N-1\<close>, with \<open>c = 6 / (N (N\<^sup>2 - 1))\<close> and \<open>permuted\<close> the shuffle of the
  identity sequence \<open>0..N-1\<close> by the generator made from that seed.
\<close>

theorem get_null_rho_values:
  assumes "1 < Ncells" "0 \<le> Niters" "int (length Seeds) = Niters" "shuffle_permutes ext"
  shows "get_null_rho ext Ncells Niters Seeds =
           Inr (map (permutation_rho ext (nat Ncells)) Seeds)
         \<and> length (map (permutation_rho ext (nat Ncells)) Seeds) = nat Niters"
  using assms by (rule null_rho_values)

theorem get_null_rho_values_witness:
  "(1::int) < 4 \<and> (0::int) \<le> 2 \<and> int (length [7::int, 8]) = 2 \<and> shuffle_permutes rev_stdlib
   \<and> get_null_rho rev_stdlib 4 2 [7, 8] = Inr (map (permutation_rho rev_stdlib (nat 4)) [7, 8])
   \<and> length (map (permutation_rho rev_stdlib (nat 4)) [7::int, 8]) = nat 2"
proof -
  have p: "shuffle_permutes rev_stdlib"
    by (simp add: shuffle_permutes_def rev_stdlib_def)
  from get_null_rho_values [of 4 2 "[7, 8]" rev_stdlib, OF _ _ _ p] p show ?thesis
    by simp
qed

section \<open>The reversed ranking of four cells\<close>

lemma round_double_numeral:
  "numeral k \<le> (2::int) ^ 53 \<Longrightarrow> round_double (numeral k) = Dbl (numeral k)"
  using round_double_of_int [of "numeral k"] by simp

lemma round_double_neg_numeral:
  "numeral k \<le> (2::int) ^ 53 \<Longrightarrow> round_double (- numeral k) = Dbl (- numeral k)"
  using round_double_of_int [of "- numeral k"] by simp

lemma round_double_zero: "round_double 0 = Dbl 0"
  using round_double_of_int [of 0] by simp

lemma round_double_one: "round_double 1 = Dbl 1"
  using round_double_of_int [of 1] by simp

lemma round_double_neg_one: "round_double (- 1) = Dbl (- 1)"
  using round_double_of_int [of "- 1"] by simp

lemmas round_double_small =
  round_double_numeral round_double_neg_numeral round_double_zero round_double_one
  round_double_neg_one

lemma round_double_tenth: "round_double (1 / 10) = Dbl (3602879701896397 / 36028797018963968)"
proof -
  have "rnd (1 / 10) = of_int 7205759403792794 * 2 powi (- 56)"
    by (rule rnd_nearest) simp_all
  then show ?thesis by (simp add: round_double_def overflow_threshold_def)
qed

lemma rho_mult_4: "rho_mult (d_of_int 4) = Dbl (3602879701896397 / 36028797018963968)"
  by (simp add: rho_mult_def d_of_int_def dmul_def dsub_def dadd_def dneg_def ddiv_def
      round_double_small round_double_tenth)

lemma sum_reversed_4: "for_loop 0 4 (sq_diff_step [3, 2, 1, 0]) (d_of_int 0) = Dbl 20"
  by (simp add: for_loop_fold upt_conv_Cons sq_diff_step_def d_of_int_def dmul_def dadd_def
      round_double_small del: upt_Suc)

lemma scaled_sum_4: "dmul (Dbl 20) (Dbl (3602879701896397 / 36028797018963968)) = Dbl 2"
proof -
  have "rnd (20 * (3602879701896397 / 36028797018963968)) = 2"
    by (rule rnd_two_tie) simp_all
  then show ?thesis by (simp add: dmul_def round_double_def overflow_threshold_def)
qed

lemma one_minus_two: "dsub (d_of_int 1) (Dbl 2) = Dbl (- 1)"
  by (simp add: dsub_def dadd_def dneg_def d_of_int_def round_double_small)

text \<open>
  C7. With four cells, an iteration whose shuffle turns \<open>0, 1, 2, 3\<close> into \<open>3, 2, 1, 0\<close>
  yields exactly \<open>-1\<close>: the constant \<open>6 / 60\<close> is rounded to the double nearest to \<open>1/10\<close>,
  its product with the sum \<open>9 + 1 + 1 + 9 = 20\<close> is rounded to \<open>2\<close>, and \<open>1 - 2\<close> is exact.
\<close>

theorem reversed_ranking_rho:
  assumes "shuffle ext [0, 1, 2, 3] (mt19937 ext seed) = [3, 2, 1, 0]"
  shows "get_null_rho ext 4 1 [seed] = Inr [Dbl (- 1)]"
proof -
  have "for_loop 0 1 (null_rho_iter ext 4 (Dbl (3602879701896397 / 36028797018963968)) [seed])
          (replicate 4 0, [Dbl 0]) =
        null_rho_iter ext 4 (Dbl (3602879701896397 / 36028797018963968)) [seed] 0 (replicate 4 0, [Dbl 0])"
    using for_loop_Suc [of 0 0] by (simp add: for_loop_empty)
  also have "\<dots> = ([3, 2, 1, 0], [Dbl (- 1)])"
    by (simp add: null_rho_iter_def Let_def iota_zero upt_conv_Cons assms
        sum_reversed_4 scaled_sum_4 one_minus_two del: upt_Suc)
  finally show ?thesis
    by (simp add: get_null_rho_def Let_def rho_mult_4)
qed

theorem reversed_ranking_rho_witness:
  "shuffle rev_stdlib [0, 1, 2, 3] (mt19937 rev_stdlib 7) = [3, 2, 1, 0]
   \<and> get_null_rho rev_stdlib 4 1 [7] = Inr [Dbl (- 1)]"
proof -
  have h: "shuffle rev_stdlib [0, 1, 2, 3] (mt19937 rev_stdlib 7) = [3, 2, 1, 0]"
    by (simp add: rev_stdlib_def)
  from h reversed_ranking_rho [OF h] show ?thesis by blast
qed

section \<open>The sampler with a design matrix\<close>

subsection \<open>Filling the working vector\<close>

lemma fill_loop:
  "n \<le> length c \<Longrightarrow> for_loop 0 n (\<lambda>i c. c[i := f i]) c = map f [0..<n] @ drop n c"
proof (induction n)
  case 0
  show ?case by (simp add: for_loop_empty)
next
  case (Suc n)
  then have n: "n < length c" by simp
  have "(map f [0..<n] @ drop n c)[n := f n] = map f [0..<n] @ f n # drop (Suc n) c"
    using n by (simp add: list_update_append Cons_nth_drop_Suc [symmetric])
  then show ?case using Suc by (simp add: for_loop_Suc)
qed

lemma zero_fill_loop:
  "n \<le> length v \<Longrightarrow> for_loop 0 n (\<lambda>i v. v[i := z]) v = replicate n z @ drop n v"
  by (simp add: fill_loop map_replicate_const)

lemma draw_loop:
  "a + k \<le> length v \<Longrightarrow>
   for_loop a (a + k) (draw_step ext) (v, st) =
     (take a v @ fst (deviates ext k st) @ drop (a + k) v, snd (deviates ext k st))"
proof (induction k arbitrary: a v st)
  case 0
  show ?case by (simp add: for_loop_empty)
next
  case (Suc k)
  obtain x st1 where d: "cpp_rnorm ext (fst st) (snd st) = (x, st1)" by (cases "cpp_rnorm ext (fst st) (snd st)")
  obtain zs st2 where r: "deviates ext k st1 = (zs, st2)" by (cases "deviates ext k st1")
  have a: "a < length v" using Suc.prems by simp
  have step: "draw_step ext a (v, st) = (v[a := x], st1)"
    using d by (cases st) (simp add: draw_step_def split: prod.splits)
  have "for_loop a (a + Suc k) (draw_step ext) (v, st) =
        for_loop (Suc a) (Suc a + k) (draw_step ext) (v[a := x], st1)"
    by (simp add: for_loop_step step)
  also have "\<dots> = (take (Suc a) (v[a := x]) @ zs @ drop (Suc a + k) (v[a := x]), st2)"
    using Suc.prems by (subst Suc.IH) (simp_all add: r)
  also have "take (Suc a) (v[a := x]) = take a v @ [x]"
    using a by (simp add: take_Suc_conv_app_nth)
  also have "drop (Suc a + k) (v[a := x]) = drop (a + Suc k) v" by simp
  finally show ?case by (simp add: d r)
qed

lemma deviates_Suc:
  "deviates ext (Suc k) st =
     (fst (cpp_rnorm ext (fst st) (snd st)) # fst (deviates ext k (snd (cpp_rnorm ext (fst st) (snd st)))),
      snd (deviates ext k (snd (cpp_rnorm ext (fst st) (snd st)))))"
  by (simp split: prod.splits)

lemma deviates_length: "length (fst (deviates ext k st)) = k"
  by (induction k arbitrary: st) (simp_all add: deviates_Suc del: deviates.simps(2))

lemma filled_vector:
  assumes "get_ncoefs mq \<le> get_nobs mq" "length v = get_nobs mq"
  shows "for_loop (get_ncoefs mq) (get_nobs mq) (draw_step ext)
           (for_loop 0 (get_ncoefs mq) (\<lambda>i v. v[i := d_of_int 0]) v, st) =
         (replicate (get_ncoefs mq) (d_of_int 0) @ fst (deviates ext (get_nobs mq - get_ncoefs mq) st),
          snd (deviates ext (get_nobs mq - get_ncoefs mq) st))"
proof -
  define a where "a = get_ncoefs mq"
  define k where "k = get_nobs mq - get_ncoefs mq"
  have n: "get_nobs mq = a + k" using assms(1) by (simp add: a_def k_def)
  have l: "length v = a + k" using assms(2) n by simp
  have z: "for_loop 0 a (\<lambda>i v. v[i := d_of_int 0]) v = replicate a (d_of_int 0) @ drop a v"
    using l by (simp add: zero_fill_loop)
  have "for_loop a (a + k) (draw_step ext) (replicate a (d_of_int 0) @ drop a v, st) =
     (take a (replicate a (d_of_int 0) @ drop a v) @ fst (deviates ext k st)
        @ drop (a + k) (replicate a (d_of_int 0) @ drop a v), snd (deviates ext k st))"
    using l by (intro draw_loop) simp
  then show ?thesis unfolding a_def [symmetric] k_def [symmetric] n z using l by simp
qed

subsection \<open>The order of the pairs and the sort\<close>

lemma dless_irrefl: "\<not> dless a a"
  by (cases a) (simp_all add: dless_def)

lemma dless_trans: "dless a b \<Longrightarrow> dless b c \<Longrightarrow> dless a c"
  by (cases a; cases b; cases c) (simp_all add: dless_def)

lemma dless_asym: "dless a b \<Longrightarrow> \<not> dless b a"
  using dless_trans [of a b a] dless_irrefl [of a] by blast

lemma dge_trans:
  "\<not> is_nan a \<Longrightarrow> \<not> is_nan b \<Longrightarrow> \<not> is_nan c \<Longrightarrow> \<not> dless a b \<Longrightarrow> \<not> dless b c \<Longrightarrow> \<not> dless a c"
  by (cases a; cases b; cases c) (simp_all add: dless_def)

lemma pair_lt_irrefl: "\<not> pair_lt a a"
  by (simp add: pair_lt_def dless_irrefl)

lemma pair_lt_asym: "pair_lt a b \<Longrightarrow> \<not> pair_lt b a"
  using dless_asym [of "fst a" "fst b"] by (auto simp: pair_lt_def)

lemma pair_lt_total: "snd a \<noteq> snd b \<Longrightarrow> pair_lt a b \<or> pair_lt b a"
  by (auto simp: pair_lt_def)

lemma pair_lt_trans:
  assumes "\<not> is_nan (fst a)" "\<not> is_nan (fst b)" "\<not> is_nan (fst c)"
    and "pair_lt a b" "pair_lt b c"
  shows "pair_lt a c"
proof -
  note t = dless_trans [of "fst a" "fst b" "fst c"]
  note g1 = dge_trans [OF assms(1) assms(3) assms(2)]
  note g2 = dge_trans [OF assms(2) assms(1) assms(3)]
  note g3 = dge_trans [OF assms(3) assms(2) assms(1)]
  from assms(4,5) show ?thesis
    unfolding pair_lt_def using t g1 g2 g3 by (elim disjE conjE) auto
qed

lemma mset_insert_pair: "mset (insert_pair x ys) = add_mset x (mset ys)"
  by (induction ys) simp_all

lemma mset_std_sort: "mset (std_sort xs) = mset xs"
  by (induction xs) (simp_all add: mset_insert_pair)

lemma set_insert_pair: "set (insert_pair x ys) = insert x (set ys)"
  using mset_insert_pair [of x ys] by (metis set_mset_add_mset_insert set_mset_mset)

lemma set_std_sort: "set (std_sort xs) = set xs"
  using mset_std_sort [of xs] by (metis set_mset_mset)

lemma length_std_sort: "length (std_sort xs) = length xs"
  using mset_std_sort [of xs] by (metis size_mset)

lemma sorted_insert_pair:
  assumes "sorted_wrt pair_lt ys" "\<forall>y \<in> set ys. snd y \<noteq> snd x"
    and "\<not> is_nan (fst x)" "\<forall>y \<in> set ys. \<not> is_nan (fst y)"
  shows "sorted_wrt pair_lt (insert_pair x ys)"
  using assms
proof (induction ys)
  case Nil
  show ?case by simp
next
  case (Cons y ys)
  show ?case
  proof (cases "pair_lt y x")
    case True
    have "sorted_wrt pair_lt (insert_pair x ys)" using Cons by simp
    then show ?thesis using True Cons.prems(1) by (simp add: set_insert_pair)
  next
    case False
    then have xy: "pair_lt x y" using pair_lt_total [of x y] Cons.prems(2) by auto
    have "pair_lt x z" if "z \<in> set ys" for z
    proof -
      have "pair_lt y z" using Cons.prems(1) that by simp
      with xy show ?thesis using pair_lt_trans [of x y z] Cons.prems(3,4) that by simp
    qed
    then show ?thesis using False xy Cons.prems(1) by simp
  qed
qed

lemma sorted_std_sort:
  assumes "distinct (map snd xs)" "\<forall>p \<in> set xs. \<not> is_nan (fst p)"
  shows "sorted_wrt pair_lt (std_sort xs)"
  using assms
proof (induction xs)
  case Nil
  show ?case by simp
next
  case (Cons x xs)
  have "sorted_wrt pair_lt (std_sort xs)" using Cons by simp
  moreover have "snd y \<noteq> snd x" if "y \<in> set xs" for y
    using Cons.prems(1) that by (metis distinct.simps(2) image_eqI list.simps(9) set_map)
  then have "\<forall>y \<in> set (std_sort xs). snd y \<noteq> snd x"
    by (simp add: set_std_sort)
  ultimately show ?case using Cons.prems(2) by (simp add: sorted_insert_pair set_std_sort)
qed

lemma count_before:
  assumes "sorted_wrt pair_lt c" "row < length c"
  shows "length (filter (\<lambda>y. pair_lt y (c ! row)) c) = row"
  using assms
proof (induction c arbitrary: row)
  case Nil
  then show ?case by simp
next
  case (Cons x c)
  show ?case
  proof (cases row)
    case 0
    have "\<not> pair_lt y x" if "y \<in> set c" for y
      using Cons.prems(1) that pair_lt_asym [of x y] by auto
    then have "filter (\<lambda>y. pair_lt y x) c = []" by (simp add: filter_empty_conv)
    then show ?thesis using 0 by (simp add: pair_lt_irrefl)
  next
    case (Suc r)
    then have r: "r < length c" using Cons.prems(2) by simp
    then have "pair_lt x (c ! r)" using Cons.prems(1) by simp
    moreover have "length (filter (\<lambda>y. pair_lt y (c ! r)) c) = r"
      using Cons.IH [of r] Cons.prems(1) r by simp
    ultimately show ?thesis using Suc by simp
  qed
qed

subsection \<open>The rank vector\<close>

lemma rank_loop:
  assumes "distinct (map snd c)" "\<forall>p \<in> set c. 0 \<le> snd p \<and> nat (snd p) < length r0"
    and "k \<le> length c"
  shows "length (for_loop 0 k (\<lambda>row r. r[nat (snd (c ! row)) := int row]) r0) = length r0
    \<and> (\<forall>row < k. for_loop 0 k (\<lambda>row r. r[nat (snd (c ! row)) := int row]) r0
                      ! nat (snd (c ! row)) = int row)"
  using assms(3)
proof (induction k)
  case 0
  show ?case by (simp add: for_loop_empty)
next
  case (Suc k)
  define r where "r = for_loop 0 k (\<lambda>row r. r[nat (snd (c ! row)) := int row]) r0"
  from Suc have len: "length r = length r0"
    and old: "\<forall>row < k. r ! nat (snd (c ! row)) = int row"
    by (simp_all add: r_def)
  have k: "k < length c" using Suc.prems by simp
  have step: "for_loop 0 (Suc k) (\<lambda>row r. r[nat (snd (c ! row)) := int row]) r0 =
      r[nat (snd (c ! k)) := int k]"
    by (simp add: for_loop_Suc r_def)
  have in_range: "nat (snd (c ! k)) < length r" using assms(2) k len by simp
  have other: "nat (snd (c ! row)) \<noteq> nat (snd (c ! k))" if "row < k" for row
  proof -
    have "map snd c ! row \<noteq> map snd c ! k"
      using assms(1) that k by (simp add: nth_eq_iff_index_eq del: nth_map)
    then have "snd (c ! row) \<noteq> snd (c ! k)" using that k by simp
    moreover have "0 \<le> snd (c ! row)" "0 \<le> snd (c ! k)" using assms(2) that k by simp_all
    ultimately show ?thesis by simp
  qed
  have "r[nat (snd (c ! k)) := int k] ! nat (snd (c ! row)) = int row" if "row < Suc k" for row
  proof (cases "row = k")
    case True
    then show ?thesis using in_range by simp
  next
    case False
    then have "row < k" using that by simp
    then show ?thesis using other [of row] old by (simp add: nth_list_update_neq)
  qed
  then show ?case unfolding step using len by simp
qed

lemma pair_lt_precedes:
  assumes "no_nan v" "i < length v" "j < length v"
  shows "pair_lt (v ! j, int j) (v ! i, int i) = precedes v j i"
proof -
  have "\<not> is_nan (v ! i)" "\<not> is_nan (v ! j)" using assms by (simp_all add: no_nan_def)
  then show ?thesis by (auto simp: pair_lt_def precedes_def tied_def dless_asym)
qed

lemma ranks_eq_ranking:
  assumes "no_nan v" "length r0 = length v"
  shows "for_loop 0 (length v)
           (\<lambda>row r. r[nat (snd (std_sort (map (\<lambda>i. (v ! i, int i)) [0..<length v]) ! row)) := int row])
           r0 = ranking v"
proof -
  define n where "n = length v"
  define xs where "xs = map (\<lambda>i. (v ! i, int i)) [0..<n]"
  define c where "c = std_sort xs"
  define r where "r = for_loop 0 n (\<lambda>row r. r[nat (snd (c ! row)) := int row]) r0"
  have snd_xs: "map snd xs = map int [0..<n]" by (simp add: xs_def comp_def)
  have dxs: "distinct (map snd xs)" unfolding snd_xs by (simp add: distinct_map inj_on_def)
  have ms: "mset c = mset xs" by (simp add: c_def mset_std_sort)
  then have "mset (map snd c) = mset (map snd xs)" by (metis mset_map)
  then have dc: "distinct (map snd c)" using dxs by (metis mset_eq_imp_distinct_iff)
  have sc: "set c = set xs" by (simp add: c_def set_std_sort)
  have lc: "length c = n" by (simp add: c_def length_std_sort xs_def)
  have nn: "\<forall>p \<in> set xs. \<not> is_nan (fst p)"
    using assms(1) by (auto simp: xs_def no_nan_def n_def)
  have sorted: "sorted_wrt pair_lt c" unfolding c_def using dxs nn by (rule sorted_std_sort)
  have rng: "\<forall>p \<in> set c. 0 \<le> snd p \<and> nat (snd p) < length r0"
    unfolding sc using assms(2) by (auto simp: xs_def n_def)
  from rank_loop [OF dc rng, of n] lc have lr: "length r = n"
    and rows: "\<forall>row < n. r ! nat (snd (c ! row)) = int row"
    using assms(2) by (simp_all add: r_def n_def)
  have "r = ranking v"
  proof (rule nth_equalityI)
    show "length r = length (ranking v)" by (simp add: lr ranking_def n_def)
  next
    fix i assume "i < length r"
    then have i: "i < n" by (simp add: lr)
    then have "(v ! i, int i) \<in> set c" unfolding sc by (simp add: xs_def)
    then obtain row where row: "row < n" "c ! row = (v ! i, int i)"
      using lc by (metis in_set_conv_nth)
    have "r ! i = int row" using rows row by auto
    moreover have "sorted_position v i = row"
    proof -
      have "row = length (filter (\<lambda>y. pair_lt y (v ! i, int i)) c)"
        using count_before [OF sorted, of row] row lc by simp
      also have "\<dots> = size (filter_mset (\<lambda>y. pair_lt y (v ! i, int i)) (mset c))"
        by (metis mset_filter size_mset)
      also have "\<dots> = length (filter (\<lambda>y. pair_lt y (v ! i, int i)) xs)"
        unfolding ms by (metis mset_filter size_mset)
      also have "\<dots> = length (filter (\<lambda>j. pair_lt (v ! j, int j) (v ! i, int i)) [0..<n])"
        by (simp add: xs_def filter_map comp_def)
      also have "filter (\<lambda>j. pair_lt (v ! j, int j) (v ! i, int i)) [0..<n] =
          filter (\<lambda>j. precedes v j i) [0..<n]"
        using assms(1) i by (intro filter_cong) (simp_all add: pair_lt_precedes n_def)
      finally show ?thesis by (simp add: sorted_position_def n_def)
    qed
    ultimately show "r ! i = ranking v ! i" using i by (simp add: ranking_def n_def)
  qed
  then show ?thesis by (simp add: r_def c_def xs_def n_def)
qed

lemma ranking_length: "length (ranking v) = length v"
  by (simp add: ranking_def)

subsection \<open>One mode, one iteration, all iterations\<close>

lemma residuals_rhs: "residuals ext (mq\<lparr>rhs := w\<rparr>) st = residuals ext mq st"
  by (simp add: residuals_def)

lemma factorization_shape_rhs:
  "factorization_shape mq \<Longrightarrow> length w = get_nobs mq \<Longrightarrow> factorization_shape (mq\<lparr>rhs := w\<rparr>)"
  by (simp add: factorization_shape_def)

lemma residuals_length:
  assumes "factorization_shape mq"
  shows "length (fst (residuals ext mq st)) = get_nobs mq"
proof -
  obtain zs st' where d: "deviates ext (get_nobs mq - get_ncoefs mq) st = (zs, st')"
    by (cases "deviates ext (get_nobs mq - get_ncoefs mq) st")
  have "length zs = get_nobs mq - get_ncoefs mq"
    using deviates_length [of ext "get_nobs mq - get_ncoefs mq" st] d by simp
  then have "length (replicate (get_ncoefs mq) (d_of_int 0) @ zs) = get_nobs mq"
    using assms by (simp add: factorization_shape_def)
  then show ?thesis using assms by (simp add: residuals_def d factorization_shape_def)
qed

lemma d_of_int_zero: "d_of_int 0 = Dbl 0"
  by (simp add: d_of_int_def round_double_zero)

lemma residuals_are_numbers_eq:
  "residuals_are_numbers ext mq seed =
     (no_nan (fst (residuals ext mq (normal_init ext, mt19937 ext seed))) \<and>
      no_nan (fst (residuals ext mq (snd (residuals ext mq (normal_init ext, mt19937 ext seed))))))"
  by (simp add: residuals_are_numbers_def split: prod.splits)

lemma residual_ranks_eq:
  assumes "factorization_shape mq"
    and "length current = get_nobs mq" "length rank = get_nobs mq"
  shows "residual_ranks ext mq rng current rank =
     (if no_nan (fst (residuals ext mq rng)) then
        Inr (mq\<lparr>rhs := fst (residuals ext mq rng)\<rparr>, snd (residuals ext mq rng),
             std_sort (map (\<lambda>i. (fst (residuals ext mq rng) ! i, int i)) [0..<get_nobs mq]),
             ranking (fst (residuals ext mq rng)))
      else Inl Undefined_Behaviour)"
proof -
  define v where "v = fst (residuals ext mq rng)"
  have ok: "get_ncoefs mq \<le> get_nobs mq" "length (rhs mq) = get_nobs mq"
    using assms(1) by (simp_all add: factorization_shape_def)
  have filled: "for_loop (get_ncoefs mq) (get_nobs mq) (draw_step ext)
           (for_loop 0 (get_ncoefs mq) (\<lambda>i v. v[i := d_of_int 0]) (rhs mq), rng) =
         (replicate (get_ncoefs mq) (d_of_int 0) @ fst (deviates ext (get_nobs mq - get_ncoefs mq) rng),
          snd (deviates ext (get_nobs mq - get_ncoefs mq) rng))"
    using ok by (rule filled_vector)
  have res: "residuals ext mq rng =
      (run mq (replicate (get_ncoefs mq) (d_of_int 0) @ fst (deviates ext (get_nobs mq - get_ncoefs mq) rng)),
       snd (deviates ext (get_nobs mq - get_ncoefs mq) rng))"
    by (simp add: residuals_def split: prod.splits)
  have lv: "length v = get_nobs mq" unfolding v_def using assms(1) by (rule residuals_length)
  have cur: "for_loop 0 (get_nobs mq) (\<lambda>row c. c[row := (v ! row, int row)]) current =
      map (\<lambda>row. (v ! row, int row)) [0..<get_nobs mq]"
    using assms(2) by (simp add: fill_loop)
  have "(\<not> no_nan v) = (\<exists>x \<in> set v. is_nan x)" by (simp add: no_nan_def)
  also have "\<dots> = (\<exists>i < length v. is_nan (v ! i))" by (metis in_set_conv_nth)
  also have "\<dots> = (\<exists>p \<in> set (map (\<lambda>row. (v ! row, int row)) [0..<get_nobs mq]). is_nan (fst p))"
    by (simp add: lv Bex_def)
  finally have guard:
    "(\<exists>p \<in> set (map (\<lambda>row. (v ! row, int row)) [0..<get_nobs mq]). is_nan (fst p)) =
      (\<not> no_nan v)"
    by simp
  have v': "run mq (replicate (get_ncoefs mq) (d_of_int 0) @ fst (deviates ext (get_nobs mq - get_ncoefs mq) rng)) = v"
    by (simp add: v_def res)
  show ?thesis
  proof (cases "no_nan v")
    case True
    have rk: "for_loop 0 (get_nobs mq)
        (\<lambda>row r. r[nat (snd (std_sort (map (\<lambda>i. (v ! i, int i)) [0..<get_nobs mq]) ! row)) := int row])
        rank = ranking v"
      using ranks_eq_ranking [OF True, of rank] assms(3) lv by simp
    show ?thesis
      unfolding residual_ranks_def Let_def filled fst_conv snd_conv v' cur guard
      using ok True by (simp add: rk v_def [symmetric] res [unfolded v'])
  next
    case False
    show ?thesis
      unfolding residual_ranks_def Let_def filled fst_conv snd_conv v' cur guard
      using ok False by (simp add: v_def [symmetric])
  qed
qed

lemma for_loop_two: "for_loop 0 2 body s = body (Suc 0) (body 0 s)"
proof -
  have "for_loop 0 (Suc (Suc 0)) body s = body (Suc 0) (body 0 s)"
    by (simp add: for_loop_Suc for_loop_empty)
  then show ?thesis by (simp add: numeral_2_eq_2)
qed

lemma is_nan_dneg: "is_nan (dneg a) = is_nan a"
  by (cases a) (simp_all add: dneg_def)

lemma is_inf_dneg: "is_inf (dneg a) = is_inf a"
  by (cases a) (simp_all add: dneg_def)

lemma dval_dneg: "dval (dneg a) = - dval a"
  by (cases a) (simp_all add: dneg_def)

lemma dsign_dneg: "\<not> is_nan a \<Longrightarrow> dsign (dneg a) = (\<not> dsign a)"
proof (cases a)
  case (Dbl x)
  then show ?thesis by (cases "x = 0") (simp_all add: dneg_def not_less le_less)
qed (simp_all add: dneg_def)

lemma dmul_dneg_dneg: "dmul (dneg a) (dneg b) = dmul a b"
proof (cases "is_nan a \<or> is_nan b")
  case True
  then show ?thesis by (auto simp: dmul_def is_nan_dneg)
next
  case False
  then have s: "(dsign (dneg a) \<noteq> dsign (dneg b)) = (dsign a \<noteq> dsign b)"
    by (auto simp: dsign_dneg)
  show ?thesis
    unfolding dmul_def is_nan_dneg is_inf_dneg dval_dneg s by simp
qed

lemma round_double_minus:
  assumes "y \<noteq> 0"
  shows "round_double (- y) = dneg (round_double y)"
proof -
  have "(- y < 0) = (\<not> y < 0)" using assms by auto
  then show ?thesis
    by (simp add: round_double_def rnd_minus dneg_def Let_def)
qed

lemma d_of_int_minus_sq: "dmul (d_of_int (- x)) (d_of_int (- x)) = dmul (d_of_int x) (d_of_int x)"
proof (cases "x = 0")
  case True
  then show ?thesis by simp
next
  case False
  then have "d_of_int (- x) = dneg (d_of_int x)" by (simp add: d_of_int_def round_double_minus)
  then show ?thesis by (simp add: dmul_dneg_dneg)
qed

lemma sum_squares_uminus: "sum_squares (map uminus ds) = sum_squares ds"
proof -
  have "foldl (\<lambda>acc d. dadd acc (dmul (d_of_int d) (d_of_int d))) t (map uminus ds) =
        foldl (\<lambda>acc d. dadd acc (dmul (d_of_int d) (d_of_int d))) t ds" for t
    by (induction ds arbitrary: t) (simp_all add: d_of_int_minus_sq)
  then show ?thesis by (simp add: sum_squares_def)
qed

lemma rank_diff_loop:
  "for_loop 0 n (rank_diff_step r1 r2) (d_of_int 0) = sum_squares (map (\<lambda>i. r2 ! i - r1 ! i) [0..<n])"
proof -
  have "rank_diff_step r1 r2 =
      (\<lambda>i acc. dadd acc (dmul (d_of_int (r1 ! i - r2 ! i)) (d_of_int (r1 ! i - r2 ! i))))"
    by (intro ext) (simp add: rank_diff_step_def Let_def)
  then have "for_loop 0 n (rank_diff_step r1 r2) (d_of_int 0) =
      sum_squares (map (\<lambda>i. r1 ! i - r2 ! i) [0..<n])"
    by (simp add: for_loop_fold foldl_conv_fold fold_map comp_def sum_squares_def)
  also have "map (\<lambda>i. r1 ! i - r2 ! i) [0..<n] = map uminus (map (\<lambda>i. r2 ! i - r1 ! i) [0..<n])"
    by simp
  finally show ?thesis by (simp only: sum_squares_uminus)
qed

lemma mode_step_undefined: "mode_step ext mode (Inl e) = Inl e"
  by (simp add: mode_step_def)

lemma mode_step_zero:
  assumes "factorization_shape mq" "design_inv mq st"
  shows "mode_step ext 0 (Inr (rng, st)) =
     (if no_nan (fst (residuals ext mq rng)) then
        Inr (snd (residuals ext mq rng),
             st\<lparr>multQ := mq\<lparr>rhs := fst (residuals ext mq rng)\<rparr>,
                collected2 := std_sort (map (\<lambda>i. (fst (residuals ext mq rng) ! i, int i))
                                [0..<get_nobs mq]),
                rank2 := ranking (fst (residuals ext mq rng))\<rparr>)
      else Inl Undefined_Behaviour)"
proof -
  from assms(2) obtain w where w: "length w = get_nobs mq" "multQ st = mq\<lparr>rhs := w\<rparr>"
    and len: "length (collected2 st) = get_nobs mq" "length (rank2 st) = get_nobs mq"
    by (auto simp: design_inv_def)
  have ok: "factorization_shape (mq\<lparr>rhs := w\<rparr>)" using assms(1) w(1) by (rule factorization_shape_rhs)
  show ?thesis
    using residual_ranks_eq [OF ok, of "collected2 st" "rank2 st" ext rng] len
    by (simp add: mode_step_def w(2) residuals_rhs)
qed

lemma mode_step_one:
  assumes "factorization_shape mq" "design_inv mq st"
  shows "mode_step ext (Suc 0) (Inr (rng, st)) =
     (if no_nan (fst (residuals ext mq rng)) then
        Inr (snd (residuals ext mq rng),
             st\<lparr>multQ := mq\<lparr>rhs := fst (residuals ext mq rng)\<rparr>,
                collected1 := std_sort (map (\<lambda>i. (fst (residuals ext mq rng) ! i, int i))
                                [0..<get_nobs mq]),
                rank1 := ranking (fst (residuals ext mq rng))\<rparr>)
      else Inl Undefined_Behaviour)"
proof -
  from assms(2) obtain w where w: "length w = get_nobs mq" "multQ st = mq\<lparr>rhs := w\<rparr>"
    and len: "length (collected1 st) = get_nobs mq" "length (rank1 st) = get_nobs mq"
    by (auto simp: design_inv_def)
  have ok: "factorization_shape (mq\<lparr>rhs := w\<rparr>)" using assms(1) w(1) by (rule factorization_shape_rhs)
  show ?thesis
    using residual_ranks_eq [OF ok, of "collected1 st" "rank1 st" ext rng] len
    by (simp add: mode_step_def w(2) residuals_rhs)
qed

lemma mode_loop_eq:
  assumes "factorization_shape mq" "design_inv mq st"
    and "no_nan (fst (residuals ext mq rng))"
    and "no_nan (fst (residuals ext mq (snd (residuals ext mq rng))))"
  shows "\<exists>rng' st'. for_loop 0 2 (mode_step ext) (Inr (rng, st)) = Inr (rng', st')
     \<and> design_inv mq st' \<and> outputs st' = outputs st
     \<and> rank2 st' = ranking (fst (residuals ext mq rng))
     \<and> rank1 st' = ranking (fst (residuals ext mq (snd (residuals ext mq rng))))"
proof -
  from assms(2) have len: "length (collected1 st) = get_nobs mq" "length (collected2 st) = get_nobs mq"
      "length (rank1 st) = get_nobs mq" "length (rank2 st) = get_nobs mq"
    by (auto simp: design_inv_def)
  define v0 where "v0 = fst (residuals ext mq rng)"
  define rng1 where "rng1 = snd (residuals ext mq rng)"
  define v1 where "v1 = fst (residuals ext mq rng1)"
  define rng2 where "rng2 = snd (residuals ext mq rng1)"
  have lv0: "length v0 = get_nobs mq" unfolding v0_def using assms(1) by (rule residuals_length)
  have lv1: "length v1 = get_nobs mq" unfolding v1_def using assms(1) by (rule residuals_length)
  define st1 where "st1 = st\<lparr>multQ := mq\<lparr>rhs := v0\<rparr>,
      collected2 := std_sort (map (\<lambda>i. (v0 ! i, int i)) [0..<get_nobs mq]), rank2 := ranking v0\<rparr>"
  have m0: "mode_step ext 0 (Inr (rng, st)) = Inr (rng1, st1)"
    using assms(3) by (simp add: mode_step_zero [OF assms(1,2)] v0_def rng1_def st1_def)
  have inv1: "design_inv mq st1"
    using len lv0 by (auto simp: design_inv_def st1_def length_std_sort ranking_length)
  define st2 where "st2 = st1\<lparr>multQ := mq\<lparr>rhs := v1\<rparr>,
      collected1 := std_sort (map (\<lambda>i. (v1 ! i, int i)) [0..<get_nobs mq]), rank1 := ranking v1\<rparr>"
  have m1: "mode_step ext (Suc 0) (Inr (rng1, st1)) = Inr (rng2, st2)"
    using assms(4) by (simp add: mode_step_one [OF assms(1) inv1] v1_def rng2_def st2_def rng1_def)
  have "for_loop 0 2 (mode_step ext) (Inr (rng, st)) = Inr (rng2, st2)"
    by (simp add: for_loop_two m0 m1)
  moreover have "design_inv mq st2"
    using len lv1 by (auto simp: design_inv_def st2_def st1_def length_std_sort ranking_length lv0)
  moreover have "outputs st2 = outputs st" by (simp add: st2_def st1_def)
  moreover have "rank2 st2 = ranking v0" "rank1 st2 = ranking v1" by (simp_all add: st2_def st1_def)
  ultimately show ?thesis unfolding v0_def v1_def rng1_def by blast
qed

lemma mode_loop_undefined:
  assumes "factorization_shape mq" "design_inv mq st"
    and "\<not> (no_nan (fst (residuals ext mq rng)) \<and>
            no_nan (fst (residuals ext mq (snd (residuals ext mq rng)))))"
  shows "for_loop 0 2 (mode_step ext) (Inr (rng, st)) = Inl Undefined_Behaviour"
proof (cases "no_nan (fst (residuals ext mq rng))")
  case False
  then show ?thesis
    by (simp add: for_loop_two mode_step_zero [OF assms(1,2)] mode_step_undefined)
next
  case True
  from assms(2) have len: "length (collected1 st) = get_nobs mq" "length (collected2 st) = get_nobs mq"
      "length (rank1 st) = get_nobs mq" "length (rank2 st) = get_nobs mq"
    by (auto simp: design_inv_def)
  define v0 where "v0 = fst (residuals ext mq rng)"
  have lv0: "length v0 = get_nobs mq" unfolding v0_def using assms(1) by (rule residuals_length)
  define st1 where "st1 = st\<lparr>multQ := mq\<lparr>rhs := v0\<rparr>,
      collected2 := std_sort (map (\<lambda>i. (v0 ! i, int i)) [0..<get_nobs mq]), rank2 := ranking v0\<rparr>"
  have m0: "mode_step ext 0 (Inr (rng, st)) = Inr (snd (residuals ext mq rng), st1)"
    using True by (simp add: mode_step_zero [OF assms(1,2)] v0_def st1_def)
  have inv1: "design_inv mq st1"
    using len lv0 by (auto simp: design_inv_def st1_def length_std_sort ranking_length)
  have "\<not> no_nan (fst (residuals ext mq (snd (residuals ext mq rng))))" using True assms(3) by simp
  then show ?thesis
    by (simp add: for_loop_two m0 mode_step_one [OF assms(1) inv1])
qed

lemma design_rho_eq:
  "design_rho ext mq seed =
     rank_correlation (get_nobs mq)
       (ranking (fst (residuals ext mq (normal_init ext, mt19937 ext seed))))
       (ranking (fst (residuals ext mq (snd (residuals ext mq (normal_init ext, mt19937 ext seed))))))"
  by (simp add: design_rho_def split: prod.splits)

lemma design_iter_eq:
  assumes "factorization_shape mq" "design_inv mq st" "residuals_are_numbers ext mq (S ! it)"
  shows "\<exists>st'. design_iter ext (get_nobs mq) (scaling_constant (get_nobs mq)) S it (Inr st) = Inr st'
     \<and> design_inv mq st' \<and> outputs st' = (outputs st)[it := design_rho ext mq (S ! it)]"
proof -
  define rng where "rng = (normal_init ext, mt19937 ext (S ! it))"
  have nn: "no_nan (fst (residuals ext mq rng))"
    "no_nan (fst (residuals ext mq (snd (residuals ext mq rng))))"
    using assms(3) by (simp_all add: residuals_are_numbers_eq rng_def)
  from mode_loop_eq [OF assms(1,2) nn] obtain rng' st1 where
    loop: "for_loop 0 2 (mode_step ext) (Inr (rng, st)) = Inr (rng', st1)"
    and inv: "design_inv mq st1" and out: "outputs st1 = outputs st"
    and r2: "rank2 st1 = ranking (fst (residuals ext mq rng))"
    and r1: "rank1 st1 = ranking (fst (residuals ext mq (snd (residuals ext mq rng))))"
    by blast
  define rho where "rho = dsub (d_of_int 1)
      (dmul (for_loop 0 (get_nobs mq) (rank_diff_step (rank1 st1) (rank2 st1)) (d_of_int 0))
         (scaling_constant (get_nobs mq)))"
  have "rho = design_rho ext mq (S ! it)"
    by (simp add: rho_def rank_diff_loop design_rho_eq rank_correlation_def r1 r2 rng_def
        dmul_commute [of "scaling_constant (get_nobs mq)"])
  moreover have "design_iter ext (get_nobs mq) (scaling_constant (get_nobs mq)) S it (Inr st) =
      Inr (st1\<lparr>outputs := (outputs st1)[it := rho]\<rparr>)"
    using loop by (simp add: design_iter_def Let_def rng_def rho_def)
  moreover have "design_inv mq (st1\<lparr>outputs := (outputs st1)[it := rho]\<rparr>)"
    using inv by (simp add: design_inv_def)
  ultimately show ?thesis using out by simp
qed

lemma design_iter_undefined:
  assumes "factorization_shape mq" "design_inv mq st" "\<not> residuals_are_numbers ext mq (S ! it)"
  shows "design_iter ext n c S it (Inr st) = Inl Undefined_Behaviour"
proof -
  have "for_loop 0 2 (mode_step ext) (Inr ((normal_init ext, mt19937 ext (S ! it)), st)) =
      Inl Undefined_Behaviour"
    using assms(3) by (intro mode_loop_undefined [OF assms(1,2)]) (simp add: residuals_are_numbers_eq)
  then show ?thesis by (simp add: design_iter_def Let_def)
qed

lemma design_loop_eq:
  assumes "factorization_shape mq" "design_inv mq st0"
    and "length (outputs st0) = length S" "k \<le> length S"
    and "\<forall>i < k. residuals_are_numbers ext mq (S ! i)"
  shows "\<exists>st'. for_loop 0 k (design_iter ext (get_nobs mq) (scaling_constant (get_nobs mq)) S) (Inr st0)
        = Inr st'
     \<and> design_inv mq st'
     \<and> outputs st' = map (design_rho ext mq) (take k S) @ drop k (outputs st0)"
  using assms(4,5)
proof (induction k)
  case 0
  show ?case using assms(2) by (simp add: for_loop_empty)
next
  case (Suc k)
  then obtain st1 where
    loop: "for_loop 0 k (design_iter ext (get_nobs mq) (scaling_constant (get_nobs mq)) S) (Inr st0)
        = Inr st1"
    and inv: "design_inv mq st1"
    and out: "outputs st1 = map (design_rho ext mq) (take k S) @ drop k (outputs st0)"
    by auto
  have num: "residuals_are_numbers ext mq (S ! k)" using Suc.prems(2) by simp
  from design_iter_eq [OF assms(1) inv num] obtain st2 where
    it: "design_iter ext (get_nobs mq) (scaling_constant (get_nobs mq)) S k (Inr st1) = Inr st2"
    and inv2: "design_inv mq st2"
    and out2: "outputs st2 = (outputs st1)[k := design_rho ext mq (S ! k)]"
    by blast
  have k: "k < length S" "k < length (outputs st0)" using Suc.prems assms(3) by simp_all
  have "outputs st2 = map (design_rho ext mq) (take (Suc k) S) @ drop (Suc k) (outputs st0)"
    unfolding out2 out using k
    by (simp add: list_update_append Cons_nth_drop_Suc [symmetric] take_Suc_conv_app_nth)
  then show ?case using inv2 by (simp add: for_loop_Suc loop it)
qed

lemma design_loop_undefined:
  assumes "factorization_shape mq" "design_inv mq st0"
    and "length (outputs st0) = length S" "k \<le> length S"
    and "\<exists>i < k. \<not> residuals_are_numbers ext mq (S ! i)"
  shows "for_loop 0 k (design_iter ext (get_nobs mq) (scaling_constant (get_nobs mq)) S) (Inr st0)
        = Inl Undefined_Behaviour"
  using assms(4,5)
proof (induction k)
  case 0
  then show ?case by simp
next
  case (Suc k)
  show ?case
  proof (cases "\<exists>i < k. \<not> residuals_are_numbers ext mq (S ! i)")
    case True
    then have "for_loop 0 k (design_iter ext (get_nobs mq) (scaling_constant (get_nobs mq)) S) (Inr st0)
        = Inl Undefined_Behaviour"
      using Suc by simp
    moreover have "design_iter ext (get_nobs mq) (scaling_constant (get_nobs mq)) S k
        (Inl Undefined_Behaviour) = Inl Undefined_Behaviour"
      by (simp add: design_iter_def)
    ultimately show ?thesis by (simp add: for_loop_Suc)
  next
    case False
    then have all: "\<forall>i < k. residuals_are_numbers ext mq (S ! i)" by simp
    have bad: "\<not> residuals_are_numbers ext mq (S ! k)"
      using Suc.prems(2) all by (metis less_Suc_eq)
    have "k \<le> length S" using Suc.prems(1) by simp
    from design_loop_eq [OF assms(1,2,3) this all] obtain st1 where
      loop: "for_loop 0 k (design_iter ext (get_nobs mq) (scaling_constant (get_nobs mq)) S) (Inr st0)
          = Inr st1"
      and inv: "design_inv mq st1"
      by blast
    show ?thesis
      by (simp add: for_loop_Suc loop design_iter_undefined [OF assms(1) inv bad])
  qed
qed

lemma design_init_inv:
  assumes "factorization_shape mq"
  shows "design_inv mq (design_init mq K)"
proof -
  have "multQ (design_init mq K) = mq\<lparr>rhs := rhs mq\<rparr>" by (simp add: design_init_def)
  moreover have "length (rhs mq) = get_nobs mq" using assms by (simp add: factorization_shape_def)
  ultimately show ?thesis unfolding design_inv_def by (auto simp: design_init_def)
qed

subsection \<open>Evaluation on small numbers\<close>

lemma round_double_quarter: "round_double (1 / 4) = Dbl (1 / 4)"
proof -
  have "rnd (1 / 4) = of_int (2 ^ 52) * 2 powi (- 54)"
    by (rule rnd_nearest) simp_all
  then show ?thesis by (simp add: round_double_def overflow_threshold_def)
qed

lemma round_double_half: "round_double (1 / 2) = Dbl (1 / 2)"
proof -
  have "rnd (1 / 2) = of_int (2 ^ 52) * 2 powi (- 53)"
    by (rule rnd_nearest) simp_all
  then show ?thesis by (simp add: round_double_def overflow_threshold_def)
qed

lemma d_of_int_numeral: "numeral k \<le> (2::int) ^ 53 \<Longrightarrow> d_of_int (numeral k) = Dbl (numeral k)"
  by (simp add: d_of_int_def round_double_numeral)

lemma d_of_int_neg_numeral:
  "numeral k \<le> (2::int) ^ 53 \<Longrightarrow> d_of_int (- numeral k) = Dbl (- numeral k)"
  by (simp add: d_of_int_def round_double_neg_numeral)

lemma d_of_int_one: "d_of_int 1 = Dbl 1"
  by (simp add: d_of_int_def round_double_one)

lemma d_of_int_neg_one: "d_of_int (- 1) = Dbl (- 1)"
  by (simp add: d_of_int_def round_double_neg_one)

lemmas d_of_int_small =
  d_of_int_zero d_of_int_one d_of_int_neg_one d_of_int_numeral d_of_int_neg_numeral

lemma rev_stdlib_sel:
  "mt19937 rev_stdlib seed = seed" "shuffle rev_stdlib xs g = rev xs" "normal_init rev_stdlib = ()"
  "cpp_rnorm rev_stdlib nd g = (d_of_int (g * g mod 7), nd, g + 1)"
  by (simp_all add: rev_stdlib_def)

lemma identity_qr_sel:
  "get_nobs (identity_qr n k) = n" "get_ncoefs (identity_qr n k) = k"
  "rhs (identity_qr n k) = replicate n (Dbl 0)" "run (identity_qr n k) v = v"
  by (simp_all add: identity_qr_def)

lemma residuals_example_5:
  "residuals rev_stdlib (identity_qr 3 (Suc 0)) ((), 5) = ([Dbl 0, Dbl 4, Dbl 1], ((), 7))"
  by (simp add: residuals_def identity_qr_sel rev_stdlib_sel numeral_2_eq_2 d_of_int_small)

lemma residuals_example_7:
  "residuals rev_stdlib (identity_qr 3 (Suc 0)) ((), 7) = ([Dbl 0, Dbl 0, Dbl 1], ((), 9))"
  by (simp add: residuals_def identity_qr_sel rev_stdlib_sel numeral_2_eq_2 d_of_int_small)

lemma ranking_example_5: "ranking [Dbl 0, Dbl 4, Dbl 1] = [0, 2, 1]"
  by (simp add: ranking_def sorted_position_def precedes_def tied_def dless_def upt_conv_Cons
      del: upt_Suc)

lemma ranking_example_7: "ranking [Dbl 0, Dbl 0, Dbl 1] = [0, 1, 2]"
  by (simp add: ranking_def sorted_position_def precedes_def tied_def dless_def upt_conv_Cons
      del: upt_Suc)

lemma scaling_constant_3: "scaling_constant 3 = Dbl (1 / 4)"
  by (simp add: scaling_constant_def Let_def d_of_int_small dmul_def dsub_def dadd_def dneg_def
      ddiv_def round_double_small round_double_quarter)

lemma dadd_Dbl: "dadd (Dbl a) (Dbl b) = (if a + b = 0 then Dbl 0 else round_double (a + b))"
  by (simp add: dadd_def dzero_def)

lemma dsub_Dbl: "dsub (Dbl a) (Dbl b) = (if a - b = 0 then Dbl 0 else round_double (a - b))"
  by (simp add: dsub_def dadd_def dneg_def dzero_def)

lemma dmul_Dbl:
  "dmul (Dbl a) (Dbl b) =
     (if a * b = 0 then dzero ((a < 0) \<noteq> (b < 0)) else round_double (a * b))"
  by (simp add: dmul_def)

lemma ddiv_Dbl: "a \<noteq> 0 \<Longrightarrow> b \<noteq> 0 \<Longrightarrow> ddiv (Dbl a) (Dbl b) = round_double (a / b)"
  by (simp add: ddiv_def)

lemmas double_eval =
  dadd_Dbl dsub_Dbl dmul_Dbl ddiv_Dbl dzero_def d_of_int_small round_double_small

lemma sum_squares_example: "sum_squares [0, 1, - 1] = Dbl 2"
  by (simp add: sum_squares_def double_eval)

lemma rank_correlation_example: "rank_correlation 3 [0, 2, 1] [0, 1, 2] = Dbl (1 / 2)"
proof -
  have "map (\<lambda>i. [0, 2, 1] ! i - [0, 1, 2 :: int] ! i) [0..<3] = [0, 1, - 1]"
    by (simp add: upt_conv_Cons del: upt_Suc)
  then show ?thesis
    by (simp add: rank_correlation_def scaling_constant_3 sum_squares_example double_eval
        round_double_half)
qed

lemma design_rho_example: "design_rho rev_stdlib (identity_qr 3 (Suc 0)) 5 = Dbl (1 / 2)"
  by (simp add: design_rho_eq rev_stdlib_sel identity_qr_sel residuals_example_5
        residuals_example_7 ranking_example_5 ranking_example_7 rank_correlation_example)

lemma reflector_qr_sel:
  "get_nobs (reflector_qr k) = 2" "get_ncoefs (reflector_qr k) = k"
  "rhs (reflector_qr k) = [Dbl 0, Dbl 0]"
  "run (reflector_qr k) [a, b] = [dsub a (dadd a b), dsub b (dadd a b)]"
  by (simp_all add: reflector_qr_def Let_def)

lemma reflector_shape: "k \<le> 2 \<Longrightarrow> factorization_shape (reflector_qr k)"
proof -
  have "length (run (reflector_qr k) v) = 2" if "length v = 2" for v
  proof -
    from that obtain a b where "v = [a, b]"
      by (cases v; cases "tl v") (auto simp: length_Suc_conv)
    then show ?thesis by (simp add: reflector_qr_sel)
  qed
  then show "k \<le> 2 \<Longrightarrow> factorization_shape (reflector_qr k)"
    by (simp add: factorization_shape_def reflector_qr_sel)
qed

lemma reflected_example_5:
  "residuals rev_stdlib (reflector_qr 0) ((), 5) = ([Dbl (- 1), Dbl (- 4)], ((), 7))"
  by (simp add: residuals_def reflector_qr_sel rev_stdlib_sel numeral_2_eq_2 double_eval)

lemma reflected_example_7:
  "residuals rev_stdlib (reflector_qr 0) ((), 7) = ([Dbl (- 1), Dbl 0], ((), 9))"
  by (simp add: residuals_def reflector_qr_sel rev_stdlib_sel numeral_2_eq_2 double_eval)

lemma reflected_ranking_5: "ranking [Dbl (- 1), Dbl (- 4)] = [1, 0]"
  by (simp add: ranking_def sorted_position_def precedes_def tied_def dless_def upt_conv_Cons
      del: upt_Suc)

lemma reflected_ranking_7: "ranking [Dbl (- 1), Dbl 0] = [0, 1]"
  by (simp add: ranking_def sorted_position_def precedes_def tied_def dless_def upt_conv_Cons
      del: upt_Suc)

lemma scaling_constant_2: "scaling_constant 2 = Dbl 1"
  by (simp add: scaling_constant_def Let_def double_eval)

lemma rank_correlation_swapped: "rank_correlation 2 [1, 0] [0, 1] = Dbl (- 1)"
proof -
  have "map (\<lambda>i. [1, 0] ! i - [0, 1 :: int] ! i) [0..<2] = [1, - 1]"
    by (simp add: upt_conv_Cons del: upt_Suc)
  then show ?thesis
    by (simp add: rank_correlation_def scaling_constant_2 sum_squares_def double_eval)
qed

lemma reflected_rho_example: "design_rho rev_stdlib (reflector_qr 0) 5 = Dbl (- 1)"
  by (simp add: design_rho_eq rev_stdlib_sel reflector_qr_sel reflected_example_5
        reflected_example_7 reflected_ranking_5 reflected_ranking_7 rank_correlation_swapped)

lemma reflected_numbers: "residuals_are_numbers rev_stdlib (reflector_qr 0) 5"
  by (simp add: residuals_are_numbers_eq rev_stdlib_sel reflected_example_5 reflected_example_7
        no_nan_def)

lemma design_values:
  assumes "0 < Niters" "int (length Seeds) = Niters" "factorization_shape mq"
  shows "get_null_rho_design ext mq Niters Seeds =
     (if \<forall>seed \<in> set Seeds. residuals_are_numbers ext mq seed
      then Inr (map (design_rho ext mq) Seeds) else Inl Undefined_Behaviour)"
proof -
  define st0 where "st0 = design_init mq (nat Niters)"
  have n: "nat Niters = length Seeds" using assms(2) by auto
  have inv: "design_inv mq st0" unfolding st0_def using assms(3) by (rule design_init_inv)
  have lo: "length (outputs st0) = length Seeds" by (simp add: st0_def design_init_def n)
  have c: "rho_mult (d_of_int (int (get_nobs mq))) = scaling_constant (get_nobs mq)"
    by (simp add: rho_mult_def scaling_constant_def Let_def)
  have call: "get_null_rho_design ext mq Niters Seeds =
      (case for_loop 0 (length Seeds)
          (design_iter ext (get_nobs mq) (scaling_constant (get_nobs mq)) Seeds) (Inr st0) of
         Inl e \<Rightarrow> Inl e | Inr st \<Rightarrow> Inr (outputs st))"
    using assms(1,2) by (simp add: get_null_rho_design_def Let_def st0_def c n)
  have all: "(\<forall>seed \<in> set Seeds. residuals_are_numbers ext mq seed) =
      (\<forall>i < length Seeds. residuals_are_numbers ext mq (Seeds ! i))"
    by (simp add: all_set_conv_all_nth)
  show ?thesis
  proof (cases "\<forall>i < length Seeds. residuals_are_numbers ext mq (Seeds ! i)")
    case True
    from design_loop_eq [OF assms(3) inv lo _ True] obtain st' where
      "for_loop 0 (length Seeds)
         (design_iter ext (get_nobs mq) (scaling_constant (get_nobs mq)) Seeds) (Inr st0) = Inr st'"
      "outputs st' = map (design_rho ext mq) Seeds"
      using lo by auto
    then show ?thesis using True by (simp add: call all)
  next
    case False
    then have "\<exists>i < length Seeds. \<not> residuals_are_numbers ext mq (Seeds ! i)" by simp
    from design_loop_undefined [OF assms(3) inv lo _ this]
    have "for_loop 0 (length Seeds)
         (design_iter ext (get_nobs mq) (scaling_constant (get_nobs mq)) Seeds) (Inr st0) =
         Inl Undefined_Behaviour"
      by simp
    then show ?thesis using False by (simp add: call all)
  qed
qed

text \<open>
  C1. For at least one iteration and as many seeds, a factorization with at most as many
  coefficients as observations whose working vector of \<open>Nobs\<close> entries is transformed in
  place, and no NaN in the vectors that the iterations hand to \<^verbatim>\<open>std::sort\<close>: the sampler
  returns one value for each seed, in the order of the seeds. The value for a seed is
  obtained from one generator made from that seed, from which two vectors are drawn one
  after the other (mode 0, then mode 1), each with zeros in its first \<open>Ncoef\<close> entries and
  deviates in the other \<open>Nobs - Ncoef\<close> and then transformed; each vector is ranked (the rank
  of an item is the number of items sorted before it: those of smaller value, and those of
  equal value and smaller index) and the value is \<open>1 - c \<Sum> (rank0[i] - rank1[i])\<^sup>2\<close> over the
  \<open>Nobs\<close> positions with \<open>c = 6 / (Nobs (Nobs\<^sup>2 - 1))\<close>. Nothing else is assumed of the deviates
  or of the transform: infinities are ranked as the numbers they are.
\<close>

theorem get_null_rho_design_values:
  assumes "0 < Niters" "int (length Seeds) = Niters" "factorization_shape mq"
    and "\<forall>seed \<in> set Seeds. residuals_are_numbers ext mq seed"
  shows "get_null_rho_design ext mq Niters Seeds = Inr (map (design_rho ext mq) Seeds)
     \<and> length (map (design_rho ext mq) Seeds) = nat Niters"
  using assms design_values [of Niters Seeds mq ext] by auto

theorem get_null_rho_design_values_witness:
  "(0::int) < 1 \<and> int (length [5::int]) = 1 \<and> factorization_shape (reflector_qr 0)
   \<and> residuals_are_numbers rev_stdlib (reflector_qr 0) 5
   \<and> get_null_rho_design rev_stdlib (reflector_qr 0) 1 [5] = Inr [Dbl (- 1)]
   \<and> factorization_shape (identity_qr 3 1)
   \<and> residuals_are_numbers rev_stdlib (identity_qr 3 1) 5
   \<and> fst (residuals rev_stdlib (identity_qr 3 1) ((), 7)) = [Dbl 0, Dbl 0, Dbl 1]
   \<and> get_null_rho_design rev_stdlib (identity_qr 3 1) 1 [5] = Inr [Dbl (1 / 2)]"
proof -
  have f: "factorization_shape (reflector_qr 0)" by (simp add: reflector_shape)
  from get_null_rho_design_values [OF _ _ f, of 1 "[5]" rev_stdlib]
  have "get_null_rho_design rev_stdlib (reflector_qr 0) 1 [5] =
      Inr (map (design_rho rev_stdlib (reflector_qr 0)) [5])"
    by (simp add: reflected_numbers)
  then have a: "get_null_rho_design rev_stdlib (reflector_qr 0) 1 [5] = Inr [Dbl (- 1)]"
    by (simp add: reflected_rho_example)
  have g: "factorization_shape (identity_qr 3 1)"
    by (simp add: factorization_shape_def identity_qr_sel)
  have n: "residuals_are_numbers rev_stdlib (identity_qr 3 1) 5"
    by (simp add: residuals_are_numbers_eq rev_stdlib_sel residuals_example_5
        residuals_example_7 no_nan_def)
  have t: "fst (residuals rev_stdlib (identity_qr 3 1) ((), 7)) = [Dbl 0, Dbl 0, Dbl 1]"
    by (simp add: residuals_example_7)
  from get_null_rho_design_values [OF _ _ g, of 1 "[5]" rev_stdlib]
  have "get_null_rho_design rev_stdlib (identity_qr 3 1) 1 [5] =
      Inr (map (design_rho rev_stdlib (identity_qr 3 1)) [5])"
    using n by simp
  then have b: "get_null_rho_design rev_stdlib (identity_qr 3 1) 1 [5] = Inr [Dbl (1 / 2)]"
    by (simp add: design_rho_example)
  from f a g n t b show ?thesis by (simp add: reflected_numbers)
qed

section \<open>The rank vectors are permutations\<close>

lemma ranking_row:
  assumes "no_nan v" "i < length v"
  shows "\<exists>row < length v.
     std_sort (map (\<lambda>i. (v ! i, int i)) [0..<length v]) ! row = (v ! i, int i) \<and>
     ranking v ! i = int row"
proof -
  define c where "c = std_sort (map (\<lambda>i. (v ! i, int i)) [0..<length v])"
  define r0 :: "int list" where "r0 = replicate (length v) 0"
  have dxs: "distinct (map snd (map (\<lambda>i. (v ! i, int i)) [0..<length v]))"
    by (simp add: comp_def distinct_map inj_on_def)
  have "mset (map snd c) = mset (map snd (map (\<lambda>i. (v ! i, int i)) [0..<length v]))"
    unfolding c_def by (metis mset_map mset_std_sort)
  then have dc: "distinct (map snd c)" using dxs by (metis mset_eq_imp_distinct_iff)
  have sc: "set c = set (map (\<lambda>i. (v ! i, int i)) [0..<length v])"
    by (simp add: c_def set_std_sort)
  have lc: "length c = length v" by (simp add: c_def length_std_sort)
  have rng: "\<forall>p \<in> set c. 0 \<le> snd p \<and> nat (snd p) < length r0"
    unfolding sc by (auto simp: r0_def)
  have eq: "for_loop 0 (length v) (\<lambda>row r. r[nat (snd (c ! row)) := int row]) r0 = ranking v"
    unfolding c_def using assms(1) by (intro ranks_eq_ranking) (simp_all add: r0_def)
  from rank_loop [OF dc rng, of "length v"] lc
  have rows: "\<forall>row < length v. ranking v ! nat (snd (c ! row)) = int row"
    by (simp add: eq)
  have "(v ! i, int i) \<in> set c" unfolding sc using assms(2) by simp
  then obtain row where row: "row < length v" "c ! row = (v ! i, int i)"
    using lc by (metis in_set_conv_nth)
  then have "ranking v ! i = int row" using rows by auto
  then show ?thesis using row unfolding c_def by blast
qed

lemma ranking_permutation:
  assumes "no_nan v"
  shows "mset (ranking v) = mset (map int [0..<length v])"
proof -
  have d: "distinct (ranking v)"
    unfolding distinct_conv_nth
  proof (intro allI impI)
    fix i j assume i: "i < length (ranking v)" and j: "j < length (ranking v)" and ne: "i \<noteq> j"
    from ranking_row [OF assms, of i] i obtain ri where
      ri: "std_sort (map (\<lambda>i. (v ! i, int i)) [0..<length v]) ! ri = (v ! i, int i)"
        "ranking v ! i = int ri"
      by (auto simp: ranking_length)
    from ranking_row [OF assms, of j] j obtain rj where
      rj: "std_sort (map (\<lambda>i. (v ! i, int i)) [0..<length v]) ! rj = (v ! j, int j)"
        "ranking v ! j = int rj"
      by (auto simp: ranking_length)
    show "ranking v ! i \<noteq> ranking v ! j"
    proof
      assume "ranking v ! i = ranking v ! j"
      then have "ri = rj" using ri(2) rj(2) by simp
      then have "(v ! i, int i) = (v ! j, int j)" using ri(1) rj(1) by simp
      then show False using ne by simp
    qed
  qed
  have sub: "set (ranking v) \<subseteq> set (map int [0..<length v])"
  proof
    fix x assume "x \<in> set (ranking v)"
    then obtain i where i: "i < length v" "x = ranking v ! i"
      by (metis in_set_conv_nth ranking_length)
    from ranking_row [OF assms i(1)] obtain row where "row < length v" "ranking v ! i = int row"
      by blast
    then show "x \<in> set (map int [0..<length v])" using i(2) by simp
  qed
  have "card (set (ranking v)) = length v" using d by (simp add: distinct_card ranking_length)
  moreover have "card (set (map int [0..<length v])) = length (map int [0..<length v])"
    by (intro distinct_card) (simp add: distinct_map inj_on_def)
  then have "card (set (map int [0..<length v])) = length v" by simp
  ultimately have "set (ranking v) = set (map int [0..<length v])"
    using sub by (intro card_subset_eq) simp_all
  moreover have "distinct (map int [0..<length v])" by (simp add: distinct_map inj_on_def)
  ultimately show ?thesis using d by (metis set_eq_iff_mset_eq_distinct)
qed

lemma residual_ranks_permutation:
  assumes "residual_ranks ext mq rng current rank = Inr (mq', rng', current', rank')"
    and "length current = get_nobs mq" "length rank = get_nobs mq"
  shows "mset rank' = mset (map int [0..<get_nobs mq]) \<and> get_nobs mq' = get_nobs mq
    \<and> length current' = get_nobs mq"
proof -
  define n where "n = get_nobs mq"
  define v where "v = run mq (fst (for_loop (get_ncoefs mq) n (draw_step ext)
      (for_loop 0 (get_ncoefs mq) (\<lambda>i v. v[i := d_of_int 0]) (rhs mq), rng)))"
  define w where "w = map (\<lambda>row. v ! row) [0..<n]"
  have lw: "length w = n" by (simp add: w_def)
  have cur: "for_loop 0 n (\<lambda>row c. c[row := (v ! row, int row)]) current =
      map (\<lambda>i. (w ! i, int i)) [0..<length w]"
    using assms(2) by (simp add: fill_loop n_def [symmetric] lw w_def)
  from assms(1) have facts: "\<not> (\<exists>p \<in> set (map (\<lambda>i. (w ! i, int i)) [0..<length w]). is_nan (fst p))
    \<and> for_loop 0 n
       (\<lambda>row r. r[nat (snd (std_sort (map (\<lambda>i. (w ! i, int i)) [0..<length w]) ! row)) := int row])
       rank = rank'
    \<and> mq\<lparr>rhs := v\<rparr> = mq'
    \<and> std_sort (map (\<lambda>i. (w ! i, int i)) [0..<length w]) = current'"
    unfolding residual_ranks_def Let_def n_def [symmetric] v_def [symmetric] cur
    by (auto split: if_splits)
  have guard: "\<not> (\<exists>p \<in> set (map (\<lambda>i. (w ! i, int i)) [0..<length w]). is_nan (fst p))"
    using facts by (rule conjunct1)
  have r: "for_loop 0 n
       (\<lambda>row r. r[nat (snd (std_sort (map (\<lambda>i. (w ! i, int i)) [0..<length w]) ! row)) := int row])
       rank = rank'"
    using facts by (elim conjE)
  have m: "mq\<lparr>rhs := v\<rparr> = mq'" using facts by (elim conjE)
  have c: "std_sort (map (\<lambda>i. (w ! i, int i)) [0..<length w]) = current'"
    using facts by (elim conjE)
  have lc: "length current' = n" unfolding c [symmetric] by (simp add: length_std_sort lw)
  have nn: "no_nan w"
    unfolding no_nan_def
  proof
    fix x assume "x \<in> set w"
    then obtain i where "i < length w" "x = w ! i" by (metis in_set_conv_nth)
    then show "\<not> is_nan x" using guard by auto
  qed
  have "rank' = ranking w"
    unfolding r [symmetric] using ranks_eq_ranking [OF nn, of rank] assms(3) by (simp add: lw n_def)
  then have "mset rank' = mset (map int [0..<n])"
    using ranking_permutation [OF nn] by (simp add: lw)
  then show ?thesis using m [symmetric] lc by (simp add: n_def)
qed

text \<open>
  C9. In one iteration of the sampler with a design matrix, entered with deques of \<open>Nobs\<close>
  entries of any content, the two passes of the loop over \<open>mode\<close> leave in \<open>rank1\<close> and in
  \<open>rank2\<close> a permutation of \<open>0, ..., Nobs - 1\<close>, whatever the deviates and the transform are:
  the values of a residual vector may be tied, all of them also (as when the transformed
  vector is all zeros), or infinite. The deques keep their \<open>Nobs\<close> entries, so the next
  iteration is entered as this one was. For a working vector of \<open>Nobs\<close> entries, at least as
  many as coefficients, transformed in place, the passes complete when neither residual
  vector holds a NaN.
\<close>

theorem rank_vectors_are_permutations:
  assumes "length (collected1 st) = get_nobs (multQ st)"
    and "length (collected2 st) = get_nobs (multQ st)"
    and "length (rank1 st) = get_nobs (multQ st)" "length (rank2 st) = get_nobs (multQ st)"
  shows "(\<forall>rng' st'. for_loop 0 2 (mode_step ext) (Inr (rng, st)) = Inr (rng', st') \<longrightarrow>
            mset (rank1 st') = mset (map int [0..<get_nobs (multQ st)]) \<and>
            mset (rank2 st') = mset (map int [0..<get_nobs (multQ st)]) \<and>
            get_nobs (multQ st') = get_nobs (multQ st) \<and>
            length (collected1 st') = get_nobs (multQ st) \<and>
            length (collected2 st') = get_nobs (multQ st))
     \<and> (factorization_shape (multQ st) \<and>
        no_nan (fst (residuals ext (multQ st) rng)) \<and>
        no_nan (fst (residuals ext (multQ st) (snd (residuals ext (multQ st) rng)))) \<longrightarrow>
          (\<exists>rng' st'. for_loop 0 2 (mode_step ext) (Inr (rng, st)) = Inr (rng', st')))"
proof (rule conjI, intro allI impI)
  fix rng' st'
  assume loop: "for_loop 0 2 (mode_step ext) (Inr (rng, st)) = Inr (rng', st')"
  then have two: "mode_step ext (Suc 0) (mode_step ext 0 (Inr (rng, st))) = Inr (rng', st')"
    by (simp add: for_loop_two)
  then obtain rng1 st1 where m0: "mode_step ext 0 (Inr (rng, st)) = Inr (rng1, st1)"
    by (cases "mode_step ext 0 (Inr (rng, st))") (auto simp: mode_step_def)
  then obtain mq1 c1 r1 where
    p0: "residual_ranks ext (multQ st) rng (collected2 st) (rank2 st) = Inr (mq1, rng1, c1, r1)"
    and st1: "st1 = st\<lparr>multQ := mq1, collected2 := c1, rank2 := r1\<rparr>"
    by (auto simp: mode_step_def split: sum.splits)
  from residual_ranks_permutation [OF p0 assms(2,4)]
  have perm2: "mset r1 = mset (map int [0..<get_nobs (multQ st)])"
    and n1: "get_nobs mq1 = get_nobs (multQ st)"
    and l1: "length c1 = get_nobs (multQ st)"
    by simp_all
  from two m0 obtain mq2 rng2 c2 r2 where
    p1: "residual_ranks ext mq1 rng1 (collected1 st) (rank1 st) = Inr (mq2, rng2, c2, r2)"
    and st': "st' = st1\<lparr>multQ := mq2, collected1 := c2, rank1 := r2\<rparr>"
    by (auto simp: mode_step_def st1 split: sum.splits)
  from residual_ranks_permutation [OF p1] assms(1,3) n1
  have perm1: "mset r2 = mset (map int [0..<get_nobs (multQ st)])"
    and n2: "get_nobs mq2 = get_nobs (multQ st)"
    and l2: "length c2 = get_nobs (multQ st)"
    by simp_all
  show "mset (rank1 st') = mset (map int [0..<get_nobs (multQ st)]) \<and>
        mset (rank2 st') = mset (map int [0..<get_nobs (multQ st)]) \<and>
        get_nobs (multQ st') = get_nobs (multQ st) \<and>
        length (collected1 st') = get_nobs (multQ st) \<and>
        length (collected2 st') = get_nobs (multQ st)"
    using perm1 perm2 n2 l1 l2 by (simp add: st' st1)
next
  show "factorization_shape (multQ st) \<and>
        no_nan (fst (residuals ext (multQ st) rng)) \<and>
        no_nan (fst (residuals ext (multQ st) (snd (residuals ext (multQ st) rng)))) \<longrightarrow>
          (\<exists>rng' st'. for_loop 0 2 (mode_step ext) (Inr (rng, st)) = Inr (rng', st'))"
  proof
    assume h: "factorization_shape (multQ st) \<and>
        no_nan (fst (residuals ext (multQ st) rng)) \<and>
        no_nan (fst (residuals ext (multQ st) (snd (residuals ext (multQ st) rng))))"
    then have shape: "factorization_shape (multQ st)" by simp
    have "multQ st = (multQ st)\<lparr>rhs := rhs (multQ st)\<rparr>" by simp
    moreover have "length (rhs (multQ st)) = get_nobs (multQ st)"
      using shape by (simp add: factorization_shape_def)
    ultimately have inv: "design_inv (multQ st) st"
      unfolding design_inv_def using assms by blast
    from h mode_loop_eq [OF shape inv, of ext rng]
    show "\<exists>rng' st'. for_loop 0 2 (mode_step ext) (Inr (rng, st)) = Inr (rng', st')"
      by blast
  qed
qed

lemma tied_example:
  "residuals rev_stdlib (reflector_qr 2) st = ([Dbl 0, Dbl 0], st)"
  by (simp add: residuals_def reflector_qr_sel numeral_2_eq_2 double_eval)

theorem rank_vectors_are_permutations_witness:
  "length (collected1 (design_init (reflector_qr 2) 1)) = get_nobs (multQ (design_init (reflector_qr 2) 1))
   \<and> length (collected2 (design_init (reflector_qr 2) 1)) = get_nobs (multQ (design_init (reflector_qr 2) 1))
   \<and> length (rank1 (design_init (reflector_qr 2) 1)) = get_nobs (multQ (design_init (reflector_qr 2) 1))
   \<and> length (rank2 (design_init (reflector_qr 2) 1)) = get_nobs (multQ (design_init (reflector_qr 2) 1))
   \<and> factorization_shape (multQ (design_init (reflector_qr 2) 1))
   \<and> fst (residuals rev_stdlib (reflector_qr 2) ((), 5)) = [Dbl 0, Dbl 0]
   \<and> (\<exists>rng' st'. for_loop 0 2 (mode_step rev_stdlib)
          (Inr (((), 5), design_init (reflector_qr 2) 1)) = Inr (rng', st')
        \<and> mset (rank1 st') = mset (map int [0..<2])
        \<and> mset (rank2 st') = mset (map int [0..<2]))"
proof -
  define st where "st = design_init (reflector_qr 2) 1"
  have m: "multQ st = reflector_qr 2" by (simp add: st_def design_init_def)
  have l: "length (collected1 st) = get_nobs (multQ st)"
    "length (collected2 st) = get_nobs (multQ st)"
    "length (rank1 st) = get_nobs (multQ st)" "length (rank2 st) = get_nobs (multQ st)"
    by (simp_all add: st_def design_init_def reflector_qr_sel)
  have f: "factorization_shape (multQ st)" by (simp add: m reflector_shape)
  have t: "fst (residuals rev_stdlib (reflector_qr 2) ((), 5)) = [Dbl 0, Dbl 0]"
    by (simp add: tied_example)
  have nn: "no_nan (fst (residuals rev_stdlib (multQ st) ((), 5)))"
    "no_nan (fst (residuals rev_stdlib (multQ st) (snd (residuals rev_stdlib (multQ st) ((), 5)))))"
    by (simp_all add: m tied_example no_nan_def)
  note perm = rank_vectors_are_permutations [OF l, of rev_stdlib "((), 5)"]
  from perm f nn obtain rng' st' where
    loop: "for_loop 0 2 (mode_step rev_stdlib) (Inr (((), 5), st)) = Inr (rng', st')"
    by blast
  with perm have "mset (rank1 st') = mset (map int [0..<get_nobs (multQ st)])"
    "mset (rank2 st') = mset (map int [0..<get_nobs (multQ st)])"
    by (blast+)
  then have "mset (rank1 st') = mset (map int [0..<2])" "mset (rank2 st') = mset (map int [0..<2])"
    by (simp_all only: m reflector_qr_sel)
  with loop l f t show ?thesis unfolding st_def by blast
qed

section \<open>The interval of the values\<close>

subsection \<open>The sum of the squared differences of two rankings\<close>

lemma centred_squares_sum:
  "3 * sum_list (map (\<lambda>k. (2 * int k - c)\<^sup>2) [0..<n]) =
     2 * int n * (int n - 1) * (2 * int n - 1) - 6 * c * int n * (int n - 1) + 3 * int n * c\<^sup>2"
proof (induction n)
  case 0
  show ?case by simp
next
  case (Suc n)
  have "3 * sum_list (map (\<lambda>k. (2 * int k - c)\<^sup>2) [0..<Suc n]) =
      3 * sum_list (map (\<lambda>k. (2 * int k - c)\<^sup>2) [0..<n]) + 3 * (2 * int n - c)\<^sup>2"
    by simp
  also have "\<dots> = 2 * int n * (int n - 1) * (2 * int n - 1) - 6 * c * int n * (int n - 1)
      + 3 * int n * c\<^sup>2 + 3 * (2 * int n - c)\<^sup>2"
    by (simp only: Suc.IH)
  also have "\<dots> = 2 * int (Suc n) * (int (Suc n) - 1) * (2 * int (Suc n) - 1)
      - 6 * c * int (Suc n) * (int (Suc n) - 1) + 3 * int (Suc n) * c\<^sup>2"
    by (simp add: power2_eq_square algebra_simps)
  finally show ?case .
qed

lemma centred_squares_closed:
  "3 * sum_list (map (\<lambda>k. (2 * int k - (int n - 1))\<^sup>2) [0..<n]) = int n * ((int n)\<^sup>2 - 1)"
  unfolding centred_squares_sum by (simp add: power2_eq_square algebra_simps)




lemma squares_sum_nonneg: "0 \<le> sum_list (map (\<lambda>i. (f i)\<^sup>2) xs)" for f :: "'a \<Rightarrow> int"
  by (induction xs) simp_all

subsection \<open>Sums and products of integers that doubles hold exactly\<close>






lemma dadd_int:
  assumes "\<bar>a + b\<bar> \<le> 2 ^ 53"
  shows "dadd (Dbl (of_int a)) (Dbl (of_int b)) = Dbl (of_int (a + b))"
proof -
  have "round_double (of_int a + of_int b) = Dbl (of_int (a + b))"
    using round_double_of_int [OF assms] by simp
  moreover have "(of_int a + of_int b = (0::rat)) = (a + b = 0)"
    by (metis of_int_add of_int_eq_0_iff)
  ultimately show ?thesis by (simp add: dadd_Dbl)
qed



lemma dmul_int_square:
  assumes "d * d \<le> 2 ^ 53"
  shows "dmul (Dbl (of_int d)) (Dbl (of_int d)) = Dbl (of_int (d * d))"
proof -
  have "\<bar>d * d\<bar> \<le> 2 ^ 53" using assms by simp
  then have "round_double (of_int (d * d)) = Dbl (of_int (d * d))" by (rule round_double_of_int)
  then have "round_double (of_int d * of_int d) = Dbl (of_int (d * d))" by simp
  then show ?thesis by (simp add: dmul_Dbl dzero_def)
qed

lemma abs_le_square: "\<bar>d\<bar> \<le> d * d" for d :: int
proof (cases "d = 0")
  case True
  then show ?thesis by simp
next
  case False
  then have "1 \<le> \<bar>d\<bar>" by simp
  then have "\<bar>d\<bar> * 1 \<le> \<bar>d\<bar> * \<bar>d\<bar>" by (intro mult_left_mono) simp_all
  then show ?thesis by (simp add: abs_mult_self_eq)
qed

lemma sum_squares_fold:
  assumes "0 \<le> s" "s + sum_list (map (\<lambda>d. d\<^sup>2) ds) \<le> 2 ^ 53"
  shows "foldl (\<lambda>acc d. dadd acc (dmul (d_of_int d) (d_of_int d))) (Dbl (of_int s)) ds =
     Dbl (of_int (s + sum_list (map (\<lambda>d. d\<^sup>2) ds)))"
  using assms
proof (induction ds arbitrary: s)
  case Nil
  show ?case by simp
next
  case (Cons d ds)
  have rest: "0 \<le> sum_list (map (\<lambda>d. d\<^sup>2) ds)" by (rule squares_sum_nonneg)
  have dd: "d * d \<le> 2 ^ 53" using Cons.prems rest by (simp add: power2_eq_square)
  then have "\<bar>d\<bar> \<le> 2 ^ 53" using abs_le_square [of d] by linarith
  then have conv: "d_of_int d = Dbl (of_int d)" by (rule d_of_int_exact)
  have sd: "\<bar>s + d * d\<bar> \<le> 2 ^ 53" using Cons.prems rest by (simp add: power2_eq_square)
  have step: "dadd (Dbl (of_int s)) (dmul (d_of_int d) (d_of_int d)) = Dbl (of_int (s + d * d))"
    by (simp only: conv dmul_int_square [OF dd] dadd_int [OF sd])
  have "0 \<le> s + d * d" using Cons.prems(1) by simp
  moreover have "s + d * d + sum_list (map (\<lambda>d. d\<^sup>2) ds) \<le> 2 ^ 53"
    using Cons.prems(2) by (simp add: power2_eq_square)
  ultimately have "foldl (\<lambda>acc d. dadd acc (dmul (d_of_int d) (d_of_int d)))
      (Dbl (of_int (s + d * d))) ds = Dbl (of_int (s + d * d + sum_list (map (\<lambda>d. d\<^sup>2) ds)))"
    by (rule Cons.IH)
  then show ?case by (simp add: step power2_eq_square)
qed

lemma sum_squares_exact:
  assumes "sum_list (map (\<lambda>d. d\<^sup>2) ds) \<le> 2 ^ 53"
  shows "sum_squares ds = Dbl (of_int (sum_list (map (\<lambda>d. d\<^sup>2) ds)))"
  using sum_squares_fold [of 0 ds] assms by (simp add: sum_squares_def d_of_int_zero)

subsection \<open>The value of the formula under rounding\<close>









subsection \<open>A reversed ranking of 262150 cells\<close>

text \<open>
  Past \<open>2\<^sup>1\<^sup>8\<close> cells the product \<open>N (N\<^sup>2 - 1)\<close> need not be a double, and the bound of the
  rounded value cannot be derived from the fact alone that the shuffle reorders its range:
  for 262150 cells the product is rounded down, and an iteration whose shuffle reverses
  the ranking, as in the case of four cells, yields \<open>-1 - 2\<^sup>-\<^sup>5\<^sup>1\<close>. Which orders
  \<^verbatim>\<open>std::shuffle\<close> produces from the seeds is the algorithm of the standard library, not
  of the source.
\<close>

lemma round_double_nearest:
  assumes "2 powi (k + 52) \<le> \<bar>x\<bar>" "\<bar>x\<bar> < 2 powi (k + 53)" "- 1074 \<le> k"
    and "\<bar>x / 2 powi k - of_int m\<bar> < 1 / 2"
    and "m \<noteq> 0" "\<bar>of_int m * 2 powi k\<bar> < overflow_threshold"
  shows "round_double x = Dbl (of_int m * 2 powi k)"
proof -
  have r: "rnd x = of_int m * 2 powi k" using assms(1-4) by (rule rnd_nearest)
  have "of_int m * (2::rat) powi k \<noteq> 0" using assms(5) by simp
  then show ?thesis using assms(6) by (simp add: round_double_def r Let_def)
qed

lemma round_double_tie_even:
  assumes "2 powi (k + 52) \<le> \<bar>x\<bar>" "\<bar>x\<bar> < 2 powi (k + 53)" "- 1074 \<le> k"
    and "x / 2 powi k = of_int m + 1 / 2" "even m"
    and "m \<noteq> 0" "\<bar>of_int m * 2 powi k\<bar> < overflow_threshold"
  shows "round_double x = Dbl (of_int m * 2 powi k)"
proof -
  have r: "rnd x = of_int m * 2 powi k" using assms(1-5) by (rule rnd_tie_even)
  have "of_int m * (2::rat) powi k \<noteq> 0" using assms(6) by simp
  then show ?thesis using assms(7) by (simp add: round_double_def r Let_def)
qed

lemma reversed_difference:
  assumes "i < n"
  shows "rev (map int [0..<n]) ! i - map int [0..<n] ! i = - (2 * int i - (int n - 1))"
proof -
  have "rev (map int [0..<n]) ! i = int (n - Suc i)"
    using assms by (simp add: rev_nth)
  also have "\<dots> = int n - 1 - int i" using assms by (simp add: of_nat_diff)
  finally show ?thesis using assms by simp
qed

lemma reversed_squares:
  "3 * sum_list (map (\<lambda>i. (rev (map int [0..<n]) ! i - map int [0..<n] ! i)\<^sup>2) [0..<n]) =
     int n * ((int n)\<^sup>2 - 1)"
proof -
  have "map (\<lambda>i. (rev (map int [0..<n]) ! i - map int [0..<n] ! i)\<^sup>2) [0..<n] =
      map (\<lambda>k. (2 * int k - (int n - 1))\<^sup>2) [0..<n]"
    by (intro map_cong refl)
       (simp add: reversed_difference power2_commute [of "int n - 1"] del: rev_map nth_map)
  then show ?thesis by (simp only: centred_squares_closed)
qed

lemma rank_correlation_reversed:
  assumes "int n * ((int n)\<^sup>2 - 1) \<le> 3 * 2 ^ 53"
  shows "rank_correlation n (rev (map int [0..<n])) (map int [0..<n]) =
     dsub (d_of_int 1)
       (dmul (scaling_constant n) (Dbl (of_int (int n * ((int n)\<^sup>2 - 1) div 3))))"
proof -
  define S where
    "S = sum_list (map (\<lambda>i. (rev (map int [0..<n]) ! i - map int [0..<n] ! i)\<^sup>2) [0..<n])"
  have S3: "3 * S = int n * ((int n)\<^sup>2 - 1)" unfolding S_def by (rule reversed_squares)
  then have Sdiv: "S = int n * ((int n)\<^sup>2 - 1) div 3" by simp
  have "S \<le> 2 ^ 53" using S3 assms by simp
  then have "sum_list (map (\<lambda>d. d\<^sup>2)
      (map (\<lambda>i. rev (map int [0..<n]) ! i - map int [0..<n] ! i) [0..<n])) \<le> 2 ^ 53"
    by (simp add: S_def comp_def del: rev_map nth_map)
  from sum_squares_exact [OF this]
  have "sum_squares (map (\<lambda>i. rev (map int [0..<n]) ! i - map int [0..<n] ! i) [0..<n]) =
      Dbl (of_int S)"
    by (simp add: S_def comp_def del: rev_map nth_map)
  then show ?thesis unfolding rank_correlation_def Sdiv [symmetric] by (simp only:)
qed

lemma permutation_rho_reversed:
  assumes "shuffle ext (map int [0..<n]) (mt19937 ext seed) = rev (map int [0..<n])"
    and "int n * ((int n)\<^sup>2 - 1) \<le> 3 * 2 ^ 53"
  shows "permutation_rho ext n seed =
     dsub (d_of_int 1)
       (dmul (scaling_constant n) (Dbl (of_int (int n * ((int n)\<^sup>2 - 1) div 3))))"
  unfolding permutation_rho_def Let_def assms(1) using assms(2) by (rule rank_correlation_reversed)

lemma rounded_denominator: "round_double 18015635488112850 = Dbl 18015635488112848"
proof -
  have "round_double 18015635488112850 = Dbl (of_int 4503908872028212 * 2 powi 2)"
    by (rule round_double_tie_even) (simp_all add: overflow_threshold_def)
  then show ?thesis by simp
qed

lemma rounded_quotient:
  "round_double (3 / 9007817744056424) =
     Dbl (1688733901479731 / 5070602400912917605986812821504)"
proof -
  have "round_double (3 / 9007817744056424) = Dbl (of_int 6754935605918924 * 2 powi (- 104))"
    by (rule round_double_nearest) (simp_all add: overflow_threshold_def)
  then show ?thesis by simp
qed

lemma scaling_constant_262150:
  "scaling_constant 262150 = Dbl (1688733901479731 / 5070602400912917605986812821504)"
  by (simp add: scaling_constant_def Let_def double_eval rounded_denominator rounded_quotient)

lemma rounded_product:
  "round_double (5070602400912918522845952607225 / 2535301200456458802993406410752) =
     Dbl (4503599627370497 / 2251799813685248)"
proof -
  have "round_double (5070602400912918522845952607225 / 2535301200456458802993406410752) =
      Dbl (of_int 4503599627370497 * 2 powi (- 51))"
    by (rule round_double_nearest) (simp_all add: overflow_threshold_def)
  then show ?thesis by simp
qed

lemma rounded_difference:
  "round_double (- (2251799813685249 / 2251799813685248)) =
     Dbl (- (2251799813685249 / 2251799813685248))"
proof -
  have "round_double (- (2251799813685249 / 2251799813685248)) =
      Dbl (of_int (- 4503599627370498) * 2 powi (- 52))"
    by (rule round_double_nearest) (simp_all add: overflow_threshold_def)
  then show ?thesis by simp
qed

lemma reversed_rho_262150:
  assumes "shuffle ext (map int [0..<262150]) (mt19937 ext seed) = rev (map int [0..<262150])"
  shows "permutation_rho ext 262150 seed = Dbl (- (2251799813685249 / 2251799813685248))"
proof -
  have "int 262150 * ((int 262150)\<^sup>2 - 1) \<le> 3 * 2 ^ 53" by simp
  with assms have "permutation_rho ext 262150 seed =
     dsub (d_of_int 1)
       (dmul (scaling_constant 262150)
          (Dbl (of_int (int 262150 * ((int 262150)\<^sup>2 - 1) div 3))))"
    by (rule permutation_rho_reversed)
  also have "int 262150 * ((int 262150)\<^sup>2 - 1) div 3 = 6005211829370950" by simp
  finally show ?thesis
    by (simp add: scaling_constant_262150 double_eval rounded_product rounded_difference)
qed

subsection \<open>The values of both samplers\<close>

















end
